theory Spec2Isabelle
  imports Main "HOL-Library.Word"
begin

unbundle bit_operations_syntax

section \<open>Entry (indexer.h, class Entry)\<close>

text \<open>
  \<^verbatim>\<open>using EntryId = std::uint64_t\<close>. An \<^verbatim>\<open>Entry\<close> is a class with the single field
  \<^verbatim>\<open>EntryId value_\<close>; \<^verbatim>\<open>operator==\<close> and \<^verbatim>\<open>operator<\<close> compare \<^verbatim>\<open>value_\<close>, so an
  Entry is modelled by its 64-bit word and compared as an unsigned word.
\<close>

type_synonym EntryId = "64 word"
type_synonym Entry = "64 word"

text \<open>
  \<^verbatim>\<open>Entry(docId, index, positive) : value_((docId << 17) | (index << 1) | (positive ? 1 : 0))\<close>.
  The shifts are on \<^verbatim>\<open>uint64_t\<close>: bits shifted out are lost. There is no check of the
  arguments.
\<close>

definition Entry :: "EntryId \<Rightarrow> EntryId \<Rightarrow> bool \<Rightarrow> Entry" where
  "Entry docId index positive =
     ((push_bit 17 docId OR push_bit 1 index) OR (if positive then 1 else 0))"

text \<open>\<^verbatim>\<open>id()\<close>: \<^verbatim>\<open>value_ >> 1\<close>.\<close>

definition entry_id :: "Entry \<Rightarrow> EntryId" where
  "entry_id e = drop_bit 1 e"

text \<open>\<^verbatim>\<open>documentId()\<close>: \<^verbatim>\<open>value_ >> 17\<close>.\<close>

definition documentId :: "Entry \<Rightarrow> EntryId" where
  "documentId e = drop_bit 17 e"

text \<open>\<^verbatim>\<open>conjunctionIndex()\<close>: \<^verbatim>\<open>(value_ >> 1) & 0xFFFF\<close>.\<close>

definition conjunctionIndex :: "Entry \<Rightarrow> EntryId" where
  "conjunctionIndex e = (drop_bit 1 e) AND 0xFFFF"

text \<open>\<^verbatim>\<open>isNegative()\<close>: \<^verbatim>\<open>!(value_ & 1)\<close>.\<close>

definition isNegative :: "Entry \<Rightarrow> bool" where
  "isNegative e = (\<not> (e AND 1 \<noteq> 0))"

text \<open>\<^verbatim>\<open>max()\<close>: \<^verbatim>\<open>Entry{ std::numeric_limits<EntryId>::max() }\<close>, all 64 bits set.\<close>

definition Entry_max :: Entry where
  "Entry_max = - 1"

subsection \<open>The packed word, bit by bit and as a number\<close>

lemma bit_Entry:
  "bit (Entry d i p) n \<longleftrightarrow>
     n < 64 \<and> ((17 \<le> n \<and> bit d (n - 17)) \<or> (1 \<le> n \<and> bit i (n - 1)) \<or> (n = 0 \<and> p))"
proof -
  have b1: "bit (1 :: 64 word) n \<longleftrightarrow> n = 0" by (simp add: bit_1_iff)
  have b0: "\<not> bit (0 :: 64 word) n" by simp
  have bl: "\<And>w :: 64 word. bit w n \<Longrightarrow> n < 64"
    by (auto dest: bit_imp_le_length)
  show ?thesis
    unfolding Entry_def bit_or_iff bit_push_bit_iff
    using bl[of d] bl[of i]
    by (cases p)
       (auto simp only: b1 b0 if_True if_False possible_bit_word len_bit0 len_num1 mult_2
          dest: bl)
qed

lemma and_FFFF: "(x :: 64 word) AND 0xFFFF = take_bit 16 x"
proof -
  have "(0xFFFF :: 64 word) = mask 16" by (simp add: mask_eq_exp_minus_1)
  then show ?thesis by (simp add: take_bit_eq_mask)
qed

lemma and_1_bit0: "((e :: 64 word) AND 1 \<noteq> 0) = bit e 0"
  by (simp add: and_one_eq bit_0 mod_2_eq_odd)

lemma documentId_Entry:
  "documentId (Entry d i p) = take_bit 47 d OR drop_bit 16 (take_bit 63 i)"
  unfolding documentId_def
  by (rule bit_word_eqI) (auto simp add: bit_simps bit_Entry)

lemma conjunctionIndex_Entry: "conjunctionIndex (Entry d i p) = take_bit 16 i"
  unfolding conjunctionIndex_def and_FFFF
  by (rule bit_word_eqI) (auto simp add: bit_simps bit_Entry)

lemma isNegative_Entry: "isNegative (Entry d i p) = (\<not> p)"
  unfolding isNegative_def and_1_bit0 by (simp add: bit_Entry)

lemma entry_id_Entry_polarity: "entry_id (Entry d i p) = entry_id (Entry d i q)"
  unfolding entry_id_def
  by (rule bit_word_eqI) (auto simp add: bit_simps bit_Entry)

lemma bit_bounded: "(w :: 64 word) < 2 ^ k \<Longrightarrow> bit w n \<Longrightarrow> n < k"
  by (metis bit_take_bit_iff less_mask_eq take_bit_eq_mask)

lemma take_bit_bounded: "(w :: 64 word) < 2 ^ k \<Longrightarrow> take_bit k w = w"
  by (simp add: less_mask_eq take_bit_eq_mask)

lemma drop_bit_bounded: "(w :: 64 word) < 2 ^ k \<Longrightarrow> drop_bit k w = 0"
  by (rule bit_word_eqI) (auto simp add: bit_simps dest: bit_bounded)

lemma Entry_add:
  assumes "d < 2^47" "i < 2^16"
  shows "Entry d i p = d * 2^17 + i * 2 + (if p then 1 else 0)"
proof -
  have z: "\<And>n. \<not> bit (0::64 word) n" by simp
  have b1: "\<And>n. bit (1 :: 64 word) n \<longleftrightarrow> n = 0" by (simp add: bit_1_iff)
  have "push_bit 17 d AND push_bit 1 i = 0"
    by (rule bit_word_eqI, use bit_bounded[OF assms(2)] in
        \<open>auto simp only: bit_and_iff bit_push_bit_iff z\<close>) force
  then have 1: "push_bit 17 d OR push_bit 1 i = push_bit 17 d + push_bit 1 i"
    by (rule disjunctive_add_eq_or[symmetric])
  have "(push_bit 17 d OR push_bit 1 i) AND (if p then 1 else 0) = 0"
    by (rule bit_word_eqI)
       (auto simp only: bit_and_iff bit_or_iff bit_push_bit_iff z b1 split: if_splits)
  then have 2: "(push_bit 17 d + push_bit 1 i) OR (if p then 1 else 0)
      = push_bit 17 d + push_bit 1 i + (if p then 1 else 0)"
    unfolding 1[symmetric] by (rule disjunctive_add_eq_or[symmetric])
  show ?thesis
    unfolding Entry_def 1 2 by (simp only: push_bit_eq_mult power_one_right)
qed

lemma unat_Entry:
  assumes "d < 2^47" "i < 2^16"
  shows "unat (Entry d i p) = unat d * 2^17 + unat i * 2 + (if p then 1 else 0)"
proof -
  have d: "unat d < 2^47" and i: "unat i < 2^16"
    using assms by (simp_all add: word_less_nat_alt)
  have "unat (Entry d i p) = (unat d * 2^17 + unat i * 2 + (if p then 1 else 0)) mod 2^64"
    unfolding Entry_add[OF assms]
    by (simp add: unat_word_ariths mod_simps)
  also have "\<dots> = unat d * 2^17 + unat i * 2 + (if p then 1 else 0)"
    using d i by (intro mod_less) simp
  finally show ?thesis .
qed

lemma Entry_less:
  assumes "d < 2^47" "i < 2^16" "d' < 2^47" "i' < 2^16"
  shows "Entry d i p < Entry d' i' p' \<longleftrightarrow>
     d < d' \<or> (d = d' \<and> (i < i' \<or> (i = i' \<and> \<not> p \<and> p')))"
proof -
  have i: "unat i < 2^16" and i': "unat i' < 2^16"
    using assms by (simp_all add: word_less_nat_alt)
  show ?thesis
    unfolding word_less_nat_alt unat_Entry[OF assms(1,2)] unat_Entry[OF assms(3,4)]
    using i i'
    by (cases "unat d" "unat d'" rule: linorder_cases;
        cases "unat i" "unat i'" rule: linorder_cases; cases p; cases p')
       (auto simp flip: word_unat_eq_iff)
qed

lemma documentId_Entry_bounded:
  assumes "d < 2^47" "i < 2^16"
  shows "documentId (Entry d i p) = d"
proof -
  have "drop_bit 16 (take_bit 63 i) = 0"
    by (rule bit_word_eqI) (auto simp add: bit_simps dest: bit_bounded[OF assms(2)])
  then show ?thesis
    by (simp add: documentId_Entry take_bit_bounded[OF assms(1)])
qed

lemma conjunctionIndex_Entry_bounded:
  assumes "i < 2^16"
  shows "conjunctionIndex (Entry d i p) = i"
  by (simp add: conjunctionIndex_Entry take_bit_bounded[OF assms])

lemma Entry_inj:
  assumes "d < 2^47" "i < 2^16" "d' < 2^47" "i' < 2^16"
  shows "Entry d i p = Entry d' i' p' \<longleftrightarrow> d = d' \<and> i = i' \<and> p = p'"
proof
  assume eq: "Entry d i p = Entry d' i' p'"
  have "documentId (Entry d i p) = documentId (Entry d' i' p')"
    and "conjunctionIndex (Entry d i p) = conjunctionIndex (Entry d' i' p')"
    and "isNegative (Entry d i p) = isNegative (Entry d' i' p')"
    by (simp_all only: eq)
  then show "d = d' \<and> i = i' \<and> p = p'"
    by (simp only: documentId_Entry_bounded[OF assms(1,2)] documentId_Entry_bounded[OF assms(3,4)]
          conjunctionIndex_Entry_bounded[OF assms(2)] conjunctionIndex_Entry_bounded[OF assms(4)]
          isNegative_Entry) simp
qed simp

lemma Entry_max_eq: "Entry_max = Entry (2^47 - 1) (2^16 - 1) True"
  by (simp add: Entry_def Entry_max_def)

lemma Entry_eq_max:
  assumes "d < 2^47" "i < 2^16"
  shows "Entry d i p = Entry_max \<longleftrightarrow> d = 2^47 - 1 \<and> i = 2^16 - 1 \<and> p"
proof -
  have a: "(2^47 - 1 :: EntryId) < 2^47" and b: "(2^16 - 1 :: EntryId) < 2^16" by simp_all
  show ?thesis
    unfolding Entry_max_eq using Entry_inj[OF assms a b, of p True] by simp
qed

subsection \<open>Claims about Entry\<close>

text \<open>
  C10. For every document id below \<open>2^47\<close>, conjunction index below \<open>2^16\<close> and polarity,
  the accessors give back what the Entry was constructed from: \<^verbatim>\<open>documentId()\<close> the
  document id, \<^verbatim>\<open>conjunctionIndex()\<close> the index, \<^verbatim>\<open>isNegative()\<close> the negation of the
  polarity, and the positive and the negative Entry of one conjunction have the same
  \<^verbatim>\<open>id()\<close>.
\<close>

theorem Entry_accessors_roundtrip:
  assumes "docId < 2^47" and "index < 2^16"
  shows "documentId (Entry docId index p) = docId
       \<and> conjunctionIndex (Entry docId index p) = index
       \<and> isNegative (Entry docId index p) = (\<not> p)
       \<and> entry_id (Entry docId index True) = entry_id (Entry docId index False)"
  using documentId_Entry_bounded[OF assms, of p] conjunctionIndex_Entry_bounded[OF assms(2), of docId p]
    isNegative_Entry[of docId index p] entry_id_Entry_polarity[of docId index True False]
  by simp

theorem Entry_accessors_roundtrip_witness:
  "(5 :: EntryId) < 2^47 \<and> (3 :: EntryId) < 2^16
   \<and> documentId (Entry 5 3 False) = 5 \<and> conjunctionIndex (Entry 5 3 False) = 3
   \<and> isNegative (Entry 5 3 False) = True
   \<and> entry_id (Entry 5 3 True) = entry_id (Entry 5 3 False)"
proof -
  have a: "(5 :: EntryId) < 2^47" and b: "(3 :: EntryId) < 2^16" by simp_all
  show ?thesis
    using a b Entry_accessors_roundtrip[OF a b, of False] by simp
qed

text \<open>
  C5. For Entries constructed within the bounds, \<^verbatim>\<open>operator<\<close> is the lexicographic
  order of (document id, conjunction index, polarity) with negative before positive; in
  particular the negative Entry of a conjunction is strictly below its positive Entry.
\<close>

theorem Entry_order_lexicographic:
  assumes "d < 2^47" and "i < 2^16" and "d' < 2^47" and "i' < 2^16"
  shows "(Entry d i p < Entry d' i' p'
            \<longleftrightarrow> d < d' \<or> (d = d' \<and> (i < i' \<or> (i = i' \<and> \<not> p \<and> p'))))
       \<and> Entry d i False < Entry d i True"
  using Entry_less[OF assms, of p p'] Entry_less[OF assms(1,2,1,2), of False True]
  by simp

theorem Entry_order_lexicographic_witness:
  "(2 :: EntryId) < 2^47 \<and> (7 :: EntryId) < 2^16 \<and> (3 :: EntryId) < 2^47 \<and> (1 :: EntryId) < 2^16
   \<and> Entry 2 7 True < Entry 3 1 False \<and> Entry 2 7 False < Entry 2 7 True"
proof -
  have a: "(2 :: EntryId) < 2^47" and b: "(7 :: EntryId) < 2^16"
    and c: "(3 :: EntryId) < 2^47" and d: "(1 :: EntryId) < 2^16" by simp_all
  show ?thesis
    using a b c d Entry_order_lexicographic[OF a b c d, of True False] by simp
qed

text \<open>
  C4, as stated: \<^verbatim>\<open>Entry::max()\<close> is strictly greater than every Entry constructed with a
  document id below \<open>2^47\<close> and a conjunction index below \<open>2^16\<close>. The positive Entry of
  document \<open>2^47 - 1\<close>, conjunction \<open>2^16 - 1\<close> has all 64 bits set: it is the sentinel.
\<close>

theorem Entry_max_not_strictly_greater:
  "(2^47 - 1 :: EntryId) < 2^47 \<and> (2^16 - 1 :: EntryId) < 2^16
   \<and> \<not> (Entry (2^47 - 1) (2^16 - 1) True < Entry_max)"
  by (simp add: Entry_def Entry_max_def)

text \<open>
  C4, amended: \<^verbatim>\<open>Entry::max()\<close> is greater than or equal to every Entry, and strictly
  greater than every Entry constructed within the bounds except the positive Entry of
  document \<open>2^47 - 1\<close>, conjunction \<open>2^16 - 1\<close>, which is equal to it.
\<close>

theorem Entry_max_greatest:
  assumes "d < 2^47" and "i < 2^16"
  shows "Entry d i p \<le> Entry_max
       \<and> (Entry d i p < Entry_max \<longleftrightarrow> \<not> (d = 2^47 - 1 \<and> i = 2^16 - 1 \<and> p))"
proof -
  have le: "Entry d i p \<le> Entry_max" by (simp add: Entry_max_def)
  then have "Entry d i p < Entry_max \<longleftrightarrow> Entry d i p \<noteq> Entry_max" by auto
  with le show ?thesis by (simp add: Entry_eq_max[OF assms])
qed

theorem Entry_max_greatest_witness:
  "(4 :: EntryId) < 2^47 \<and> (9 :: EntryId) < 2^16
   \<and> Entry 4 9 True \<le> Entry_max \<and> Entry 4 9 True < Entry_max"
proof -
  have a: "(4 :: EntryId) < 2^47" and b: "(9 :: EntryId) < 2^16" by simp_all
  show ?thesis
    using a b Entry_max_greatest[OF a b, of True] by simp
qed

subsection \<open>Order and id\<close>

lemma Entry_max_top: "e \<le> Entry_max"
  by (simp add: Entry_max_def)

lemma entry_id_mono: "a \<le> b \<Longrightarrow> entry_id a \<le> entry_id b"
  unfolding entry_id_def word_le_nat_alt unat_drop_bit_eq
  by (simp add: drop_bit_eq_div div_le_mono)

lemma unat_entry_id: "unat (entry_id e) = unat e div 2"
  unfolding entry_id_def unat_drop_bit_eq by (simp add: drop_bit_eq_div)

lemma unat_entry_id_Suc: "unat (entry_id e + 1) = unat (entry_id e) + 1"
proof -
  have "unat e < 2^64" using unsigned_less[of e, where 'a=nat] by simp
  then have "unat (entry_id e) < 2^63"
    unfolding unat_entry_id by simp
  then have "unat (entry_id e) + 1 < 2^64" by simp
  then show ?thesis
    by (simp add: unat_word_ariths)
qed

lemma entry_id_less_Suc: "entry_id e < entry_id e + 1"
  by (simp add: word_less_nat_alt unat_entry_id_Suc)

section \<open>Posting lists (indexer.h, class PostingList)\<close>

text \<open>
  A \<^verbatim>\<open>PostingList\<close> holds two pointers \<^verbatim>\<open>current_\<close> and \<^verbatim>\<open>end_\<close> into a vector of
  Entries that the index owns and never changes after build. The model keeps the slice it
  was constructed over, split at \<^verbatim>\<open>current_\<close>: \<open>passed\<close> are the entries of the slice
  before \<^verbatim>\<open>current_\<close>, \<open>pending\<close> the entries of \<^verbatim>\<open>[current_, end_)\<close>. The cursor is the
  offset of \<^verbatim>\<open>current_\<close> in the slice.
\<close>

record PostingList =
  passed :: "Entry list"
  pending :: "Entry list"

text \<open>\<^verbatim>\<open>PostingList(begin, end)\<close>: \<^verbatim>\<open>current_(begin), end_(end)\<close>.\<close>

definition PostingList_new :: "Entry list \<Rightarrow> PostingList" where
  "PostingList_new v = \<lparr>passed = [], pending = v\<rparr>"

text \<open>\<^verbatim>\<open>empty()\<close>: \<^verbatim>\<open>current_ == end_\<close>.\<close>

definition PostingList_empty :: "PostingList \<Rightarrow> bool" where
  "PostingList_empty p = (pending p = [])"

text \<open>\<^verbatim>\<open>current()\<close>: \<^verbatim>\<open>*current_\<close>; the callers test \<^verbatim>\<open>empty()\<close> first.\<close>

definition PostingList_current :: "PostingList \<Rightarrow> Entry" where
  "PostingList_current p = hd (pending p)"

text \<open>
  \<^verbatim>\<open>skipTo(id)\<close>: \<^verbatim>\<open>while ((current_ != end_) && (current().id() < id)) ++current_;\<close>
\<close>

function PostingList_skipTo :: "EntryId \<Rightarrow> PostingList \<Rightarrow> PostingList" where
  "PostingList_skipTo tid p =
     (if \<not> PostingList_empty p \<and> entry_id (PostingList_current p) < tid
      then PostingList_skipTo tid
             (p\<lparr>passed := passed p @ [hd (pending p)], pending := tl (pending p)\<rparr>)
      else p)"
  by pat_completeness auto
termination
  by (relation "measure (\<lambda>(tid, p). length (pending p))") (auto simp add: PostingList_empty_def)

declare PostingList_skipTo.simps [simp del]

definition slice :: "PostingList \<Rightarrow> Entry list" where
  "slice p = passed p @ pending p"

definition cursor :: "PostingList \<Rightarrow> nat" where
  "cursor p = length (passed p)"

lemma PostingList_skipTo_eq:
  "PostingList_skipTo t p =
     \<lparr>passed = passed p @ takeWhile (\<lambda>e. entry_id e < t) (pending p),
      pending = dropWhile (\<lambda>e. entry_id e < t) (pending p)\<rparr>"
proof (induction t p rule: PostingList_skipTo.induct)
  case (1 t p)
  show ?case
  proof (cases "pending p")
    case Nil
    then show ?thesis
      by (simp add: PostingList_skipTo.simps[of t p] PostingList_empty_def)
  next
    case (Cons e es)
    then show ?thesis
      using 1
      by (simp add: PostingList_skipTo.simps[of t p] PostingList_empty_def PostingList_current_def)
  qed
qed

lemma PostingList_skipTo_empty: "PostingList_empty p \<Longrightarrow> PostingList_skipTo t p = p"
  by (simp add: PostingList_skipTo.simps[of t p])

lemma PostingList_skipTo_Cons:
  "PostingList_skipTo t \<lparr>passed = xs, pending = e # es\<rparr> =
     (if entry_id e < t then PostingList_skipTo t \<lparr>passed = xs @ [e], pending = es\<rparr>
      else \<lparr>passed = xs, pending = e # es\<rparr>)"
  by (simp add: PostingList_skipTo.simps[of t "\<lparr>passed = xs, pending = e # es\<rparr>"]
        PostingList_empty_def PostingList_current_def)

lemma PostingList_skipTo_Nil:
  "PostingList_skipTo t \<lparr>passed = xs, pending = []\<rparr> = \<lparr>passed = xs, pending = []\<rparr>"
  by (simp add: PostingList_skipTo_empty PostingList_empty_def)

lemma slice_skipTo: "slice (PostingList_skipTo t p) = slice p"
  by (simp add: PostingList_skipTo_eq slice_def)

text \<open>
  C7. \<^verbatim>\<open>skipTo(target)\<close> leaves the slice as it is and moves the cursor forward, never
  backward, to the first entry at or after the old cursor whose \<^verbatim>\<open>id()\<close> is at least the
  target: every entry it passes has a smaller id, and it stops at the end or at an entry
  whose id is at least the target. Over a sorted slice the id under the cursor does not
  decrease.
\<close>

theorem PostingList_skipTo_first:
  "slice (PostingList_skipTo t p) = slice p
   \<and> cursor p \<le> cursor (PostingList_skipTo t p)
   \<and> cursor (PostingList_skipTo t p) \<le> length (slice p)
   \<and> (\<forall>i. cursor p \<le> i \<and> i < cursor (PostingList_skipTo t p) \<longrightarrow> entry_id (slice p ! i) < t)
   \<and> (\<not> PostingList_empty (PostingList_skipTo t p)
        \<longrightarrow> t \<le> entry_id (PostingList_current (PostingList_skipTo t p)))
   \<and> (sorted (slice p) \<and> \<not> PostingList_empty p \<and> \<not> PostingList_empty (PostingList_skipTo t p)
        \<longrightarrow> entry_id (PostingList_current p)
            \<le> entry_id (PostingList_current (PostingList_skipTo t p)))"
proof -
  let ?P = "\<lambda>e. entry_id e < t"
  let ?q = "PostingList_skipTo t p"
  have pa: "passed ?q = passed p @ takeWhile ?P (pending p)"
    and pe: "pending ?q = dropWhile ?P (pending p)"
    by (simp_all add: PostingList_skipTo_eq)
  have 1: "slice ?q = slice p" by (rule slice_skipTo)
  have 2: "cursor p \<le> cursor ?q" by (simp add: cursor_def pa)
  have 3: "cursor ?q \<le> length (slice p)"
    unfolding 1[symmetric] by (simp add: cursor_def slice_def)
  have 4: "entry_id (slice p ! i) < t" if "cursor p \<le> i" and "i < cursor ?q" for i
  proof -
    have i: "i - length (passed p) < length (takeWhile ?P (pending p))"
      using that by (simp add: cursor_def pa)
    have il: "i < length (passed p @ takeWhile ?P (pending p))"
      using that by (simp add: cursor_def pa)
    have "slice p = (passed p @ takeWhile ?P (pending p)) @ dropWhile ?P (pending p)"
      by (simp add: slice_def)
    then have "slice p ! i = (passed p @ takeWhile ?P (pending p)) ! i"
      using il by (simp only: nth_append if_True)
    also have "\<dots> = takeWhile ?P (pending p) ! (i - length (passed p))"
      using that by (simp add: nth_append cursor_def)
    finally show ?thesis
      using nth_mem[OF i] by (auto dest: set_takeWhileD)
  qed
  have 5: "t \<le> entry_id (PostingList_current ?q)" if "\<not> PostingList_empty ?q"
    using that hd_dropWhile[of ?P "pending p"]
    by (simp add: PostingList_empty_def PostingList_current_def pe not_less)
  have 6: "entry_id (PostingList_current p) \<le> entry_id (PostingList_current ?q)"
    if srt: "sorted (slice p)" and ne: "\<not> PostingList_empty p"
      and ne': "\<not> PostingList_empty ?q"
  proof -
    obtain e es where p: "pending p = e # es"
      using ne by (cases "pending p") (auto simp add: PostingList_empty_def)
    have "sorted (pending p)" using srt by (simp add: slice_def sorted_append)
    moreover have "hd (pending ?q) \<in> set (pending p)"
      using ne' set_dropWhileD[of _ ?P "pending p"]
      by (simp add: PostingList_empty_def pe del: dropWhile_eq_Nil_conv)
    ultimately have "e \<le> hd (pending ?q)" by (auto simp add: p)
    then show ?thesis
      by (simp add: PostingList_current_def p entry_id_mono)
  qed
  show ?thesis using 1 2 3 4 5 6 by blast
qed

theorem PostingList_skipTo_first_witness:
  "sorted (slice (PostingList_new [2, 4, 6, 8, 10]))
   \<and> \<not> PostingList_empty (PostingList_new [2, 4, 6, 8, 10])
   \<and> PostingList_skipTo 3 (PostingList_new [2, 4, 6, 8, 10])
       = \<lparr>passed = [2, 4], pending = [6, 8, 10]\<rparr>
   \<and> cursor (PostingList_new [2, 4, 6, 8, 10]) = 0
   \<and> cursor (PostingList_skipTo 3 (PostingList_new [2, 4, 6, 8, 10])) = 2
   \<and> entry_id (slice (PostingList_new [2, 4, 6, 8, 10]) ! 1) < 3
   \<and> (3 :: EntryId) \<le> entry_id (PostingList_current
                                (PostingList_skipTo 3 (PostingList_new [2, 4, 6, 8, 10])))
   \<and> entry_id (PostingList_current (PostingList_new [2, 4, 6, 8, 10]))
       \<le> entry_id (PostingList_current (PostingList_skipTo 3 (PostingList_new [2, 4, 6, 8, 10])))"
proof -
  have e: "PostingList_skipTo 3 \<lparr>passed = [], pending = [2, 4, 6, 8, 10]\<rparr>
      = \<lparr>passed = [2, 4], pending = [6, 8, 10]\<rparr>"
    by (simp add: PostingList_skipTo_Cons entry_id_def)
  show ?thesis
    using PostingList_skipTo_first[of 3 "PostingList_new [2, 4, 6, 8, 10]"]
    by (simp add: e cursor_def PostingList_empty_def PostingList_current_def slice_def
          PostingList_new_def entry_id_def)
qed


section \<open>Posting list groups (indexer.h, class PostingListGroup)\<close>

text \<open>
  The fields \<^verbatim>\<open>Entry current_\<close> and \<^verbatim>\<open>std::vector<PostingList> plists_\<close>. The
  constructor sets \<^verbatim>\<open>current_(Entry::max())\<close>.
\<close>

record PostingListGroup =
  grp_current :: Entry
  grp_plists :: "PostingList list"

definition PostingListGroup_new :: PostingListGroup where
  "PostingListGroup_new = \<lparr>grp_current = Entry_max, grp_plists = []\<rparr>"

text \<open>
  \<^verbatim>\<open>add(plist)\<close>: \<^verbatim>\<open>if (plist.empty()) return; current_ = std::min(current_, plist.current());
  plists_.push_back(plist);\<close>
\<close>

definition PostingListGroup_add :: "PostingList \<Rightarrow> PostingListGroup \<Rightarrow> PostingListGroup" where
  "PostingListGroup_add plist g =
     (if PostingList_empty plist then g
      else \<lparr>grp_current = min (grp_current g) (PostingList_current plist),
            grp_plists = grp_plists g @ [plist]\<rparr>)"

text \<open>\<^verbatim>\<open>empty()\<close>: \<^verbatim>\<open>current_ == Entry::max()\<close>; \<^verbatim>\<open>current()\<close>: \<^verbatim>\<open>current_\<close>.\<close>

definition PostingListGroup_empty :: "PostingListGroup \<Rightarrow> bool" where
  "PostingListGroup_empty g = (grp_current g = Entry_max)"

definition PostingListGroup_current :: "PostingListGroup \<Rightarrow> Entry" where
  "PostingListGroup_current g = grp_current g"

text \<open>
  The body of the loop of \<^verbatim>\<open>skipTo\<close> for one member, with the running minimum:
  \<^verbatim>\<open>if (plist.empty()) continue; plist.skipTo(id); if (plist.empty()) continue;
  if (plist.current() < min) min = plist.current();\<close>
\<close>

definition skip_member :: "EntryId \<Rightarrow> PostingList \<Rightarrow> Entry \<Rightarrow> PostingList \<times> Entry" where
  "skip_member tid plist m =
     (if PostingList_empty plist then (plist, m)
      else let plist' = PostingList_skipTo tid plist in
        if PostingList_empty plist' then (plist', m)
        else if PostingList_current plist' < m then (plist', PostingList_current plist')
        else (plist', m))"

fun skip_members :: "EntryId \<Rightarrow> PostingList list \<Rightarrow> Entry \<Rightarrow> PostingList list \<times> Entry" where
  "skip_members tid [] m = ([], m)"
| "skip_members tid (plist # rest) m =
     (case skip_member tid plist m of (plist', m') \<Rightarrow>
        (case skip_members tid rest m' of (rest', m'') \<Rightarrow> (plist' # rest', m'')))"

text \<open>
  \<^verbatim>\<open>skipTo(id)\<close>: \<^verbatim>\<open>if (current_ == Entry::max()) return; Entry min = Entry::max();
  for (auto& plist : plists_) { ... } current_ = min;\<close>
\<close>

definition PostingListGroup_skipTo :: "EntryId \<Rightarrow> PostingListGroup \<Rightarrow> PostingListGroup" where
  "PostingListGroup_skipTo tid g =
     (if grp_current g = Entry_max then g
      else case skip_members tid (grp_plists g) Entry_max of
             (ps, m) \<Rightarrow> \<lparr>grp_current = m, grp_plists = ps\<rparr>)"

subsection \<open>The loop of skipTo as a map and a minimum\<close>

definition members_min :: "Entry \<Rightarrow> PostingList list \<Rightarrow> Entry" where
  "members_min m ps =
     foldl (\<lambda>m p. if PostingList_empty p then m else min m (PostingList_current p)) m ps"

lemma members_min_Nil [simp]: "members_min m [] = m"
  by (simp add: members_min_def)

lemma members_min_Cons [simp]:
  "members_min m (p # ps) =
     members_min (if PostingList_empty p then m else min m (PostingList_current p)) ps"
  by (simp add: members_min_def)

lemma skip_member_eq:
  "skip_member t p m =
     (PostingList_skipTo t p,
      if PostingList_empty (PostingList_skipTo t p) then m
      else min m (PostingList_current (PostingList_skipTo t p)))"
  by (auto simp add: skip_member_def PostingList_skipTo_empty Let_def min_def)

lemma skip_members_eq:
  "skip_members t ps m =
     (map (PostingList_skipTo t) ps, members_min m (map (PostingList_skipTo t) ps))"
  by (induction ps arbitrary: m) (simp_all add: skip_member_eq)

lemma PostingListGroup_skipTo_eq:
  "PostingListGroup_skipTo t g =
     (if grp_current g = Entry_max then g
      else \<lparr>grp_current = members_min Entry_max (map (PostingList_skipTo t) (grp_plists g)),
            grp_plists = map (PostingList_skipTo t) (grp_plists g)\<rparr>)"
  by (simp add: PostingListGroup_skipTo_def skip_members_eq)

lemma members_min_cases:
  "members_min m ps = m \<or>
   (\<exists>p \<in> set ps. \<not> PostingList_empty p \<and> PostingList_current p = members_min m ps)"
proof (induction ps arbitrary: m)
  case Nil
  then show ?case by simp
next
  case (Cons p ps)
  show ?case
    using Cons.IH[of "if PostingList_empty p then m else min m (PostingList_current p)"]
    by (auto simp add: min_def split: if_splits)
qed

lemma members_min_fold:
  "members_min m ps =
     fold min (map PostingList_current (filter (\<lambda>p. \<not> PostingList_empty p) ps)) m"
  by (induction ps arbitrary: m) (simp_all add: min.commute)

lemma members_min_Min:
  "members_min m ps =
     Min (insert m (PostingList_current ` {p \<in> set ps. \<not> PostingList_empty p}))"
proof -
  have "Min (set (m # map PostingList_current (filter (\<lambda>p. \<not> PostingList_empty p) ps)))
      = fold min (map PostingList_current (filter (\<lambda>p. \<not> PostingList_empty p) ps)) m"
    by (rule Min.set_eq_fold)
  then show ?thesis
    by (simp add: members_min_fold)
qed

lemmas eval_simps =
  PostingList_skipTo_Cons PostingList_skipTo_Nil PostingList_new_def PostingList_empty_def
  PostingList_current_def PostingListGroup_new_def PostingListGroup_add_def
  PostingListGroup_empty_def PostingListGroup_current_def PostingListGroup_skipTo_def
  skip_member_def entry_id_def Entry_max_def Entry_def isNegative_def documentId_def

text \<open>
  C8, as stated: \<^verbatim>\<open>skipTo(target)\<close> of a group calls \<^verbatim>\<open>skipTo(target)\<close> on each member.
  The group built by \<^verbatim>\<open>add\<close> from the one-entry posting list holding the positive Entry
  of document \<open>2^47 - 1\<close>, conjunction \<open>2^16 - 1\<close> has \<^verbatim>\<open>current_ == Entry::max()\<close>;
  \<^verbatim>\<open>skipTo(2^63)\<close> returns at once and leaves the group as it is, its member still at its
  entry, where \<^verbatim>\<open>skipTo(2^63)\<close> on the member moves the cursor to the end.
\<close>

theorem PostingListGroup_skipTo_sentinel_member:
  "PostingListGroup_skipTo (2^63)
       (PostingListGroup_add (PostingList_new [Entry (2^47 - 1) (2^16 - 1) True])
          PostingListGroup_new)
     = PostingListGroup_add (PostingList_new [Entry (2^47 - 1) (2^16 - 1) True])
         PostingListGroup_new
   \<and> grp_plists (PostingListGroup_add (PostingList_new [Entry (2^47 - 1) (2^16 - 1) True])
                    PostingListGroup_new)
       = [\<lparr>passed = [], pending = [Entry_max]\<rparr>]
   \<and> PostingList_skipTo (2^63) \<lparr>passed = [], pending = [Entry_max]\<rparr>
       = \<lparr>passed = [Entry_max], pending = []\<rparr>"
  by (simp add: eval_simps mask_eq_exp_minus_1)

text \<open>
  C8, amended: if \<^verbatim>\<open>current()\<close> of the group is already the sentinel, \<^verbatim>\<open>skipTo(target)\<close>
  returns at once and changes nothing. Otherwise every member is left where its own
  \<^verbatim>\<open>skipTo(target)\<close> leaves it, and afterwards \<^verbatim>\<open>current()\<close> is the minimum of the
  current entries of the members that are still non-empty, the sentinel if there is none;
  if every member is exhausted, \<^verbatim>\<open>current()\<close> is the sentinel and \<^verbatim>\<open>empty()\<close> is true.
\<close>

theorem PostingListGroup_skipTo_members:
  "(grp_current g = Entry_max \<longrightarrow> PostingListGroup_skipTo t g = g)
   \<and> (grp_current g \<noteq> Entry_max \<longrightarrow>
        grp_plists (PostingListGroup_skipTo t g) = map (PostingList_skipTo t) (grp_plists g)
      \<and> PostingListGroup_current (PostingListGroup_skipTo t g)
          = Min (insert Entry_max (PostingList_current `
                  {p \<in> set (grp_plists (PostingListGroup_skipTo t g)). \<not> PostingList_empty p}))
      \<and> ((\<forall>p \<in> set (grp_plists (PostingListGroup_skipTo t g)). PostingList_empty p)
           \<longrightarrow> PostingListGroup_current (PostingListGroup_skipTo t g) = Entry_max
               \<and> PostingListGroup_empty (PostingListGroup_skipTo t g)))"
proof (cases "grp_current g = Entry_max")
  case True
  then show ?thesis by (simp add: PostingListGroup_skipTo_eq)
next
  case False
  let ?ps = "map (PostingList_skipTo t) (grp_plists g)"
  have g': "PostingListGroup_skipTo t g
      = \<lparr>grp_current = members_min Entry_max ?ps, grp_plists = ?ps\<rparr>"
    using False by (simp add: PostingListGroup_skipTo_eq)
  have m: "members_min Entry_max ?ps
      = Min (insert Entry_max (PostingList_current ` {p \<in> set ?ps. \<not> PostingList_empty p}))"
    by (rule members_min_Min)
  have e: "members_min Entry_max ?ps = Entry_max" if "\<forall>p \<in> set ?ps. PostingList_empty p"
  proof -
    have "filter (\<lambda>p. \<not> PostingList_empty p) ?ps = []"
      using that by (simp only: filter_empty_conv) blast
    then show ?thesis by (simp only: members_min_fold list.map fold.simps id_apply)
  qed
  show ?thesis
    using False m e
    by (simp add: g' PostingListGroup_current_def PostingListGroup_empty_def)
qed

definition two_list_group :: PostingListGroup where
  "two_list_group =
     PostingListGroup_add (PostingList_new [2, 4, 6, 8, 10])
       (PostingListGroup_add (PostingList_new [1, 3, 5, 7, 9]) PostingListGroup_new)"

theorem PostingListGroup_skipTo_members_witness:
  "grp_current two_list_group \<noteq> Entry_max
   \<and> grp_plists (PostingListGroup_skipTo 3 two_list_group)
       = map (PostingList_skipTo 3) (grp_plists two_list_group)
   \<and> PostingListGroup_current (PostingListGroup_skipTo 3 two_list_group) = 6"
proof -
  have ne: "grp_current two_list_group \<noteq> Entry_max"
    by (simp add: two_list_group_def eval_simps)
  have cur: "PostingListGroup_current (PostingListGroup_skipTo 3 two_list_group) = 6"
    by (simp add: two_list_group_def eval_simps)
  show ?thesis
    using ne cur PostingListGroup_skipTo_members[of two_list_group 3] by blast
qed


section \<open>Inverted index (indexer.h, InvertedIndexImpl and InvertedIndex)\<close>

text \<open>
  \<^verbatim>\<open>std::unordered_map<Key, std::unordered_map<T, std::vector<Entry>>> indexs_\<close>, as a map
  from keys to maps from values to vectors.
\<close>

type_synonym ('k, 't) InvertedIndexImpl = "'k \<Rightarrow> ('t \<Rightarrow> Entry list option) option"

text \<open>
  \<^verbatim>\<open>addEntry(entry, key, beg, end)\<close>: \<^verbatim>\<open>auto& t = indexs_[key]; for (; beg != end; ++beg)
  t[*beg].push_back(entry);\<close> \<^verbatim>\<open>operator[]\<close> inserts an empty map or vector where the key
  is missing.
\<close>

definition Impl_addEntry ::
  "Entry \<Rightarrow> 'k \<Rightarrow> 't list \<Rightarrow> ('k, 't) InvertedIndexImpl \<Rightarrow> ('k, 't) InvertedIndexImpl" where
  "Impl_addEntry entry k vs m =
     m(k \<mapsto> foldl (\<lambda>t v. t(v \<mapsto> (case t v of None \<Rightarrow> [] | Some es \<Rightarrow> es) @ [entry]))
                 (case m k of None \<Rightarrow> Map.empty | Some t \<Rightarrow> t) vs)"

text \<open>
  \<^verbatim>\<open>trigger(group, key, beg, end)\<close>: nothing if the key is missing; otherwise, for every
  value that has a vector, \<^verbatim>\<open>group.add(PostingList{data, data + size})\<close>.
\<close>

definition Impl_trigger ::
  "PostingListGroup \<Rightarrow> 'k \<Rightarrow> 't list \<Rightarrow> ('k, 't) InvertedIndexImpl \<Rightarrow> PostingListGroup" where
  "Impl_trigger grp k vs m =
     (case m k of None \<Rightarrow> grp
      | Some t \<Rightarrow> foldl (\<lambda>g v. case t v of None \<Rightarrow> g
                                | Some es \<Rightarrow> PostingListGroup_add (PostingList_new es) g) grp vs)"

text \<open>\<^verbatim>\<open>build()\<close>: \<^verbatim>\<open>std::sort\<close> of every vector.\<close>

definition Impl_build :: "('k, 't) InvertedIndexImpl \<Rightarrow> ('k, 't) InvertedIndexImpl" where
  "Impl_build m =
     (\<lambda>k. case m k of None \<Rightarrow> None
          | Some t \<Rightarrow> Some (\<lambda>v. case t v of None \<Rightarrow> None | Some es \<Rightarrow> Some (sort es)))"

text \<open>
  \<^verbatim>\<open>std::variant<std::vector<std::string>, std::vector<int64_t>>\<close>; \<^verbatim>\<open>InvertedIndex\<close> holds
  one \<^verbatim>\<open>InvertedIndexImpl\<close> for each of the two value types and dispatches on the type.
\<close>

datatype Values = Strings "string list" | Ints "64 word list"

record 'k InvertedIndex =
  intIndex :: "('k, 64 word) InvertedIndexImpl"
  stringIndex :: "('k, string) InvertedIndexImpl"

definition InvertedIndex_new :: "'k InvertedIndex" where
  "InvertedIndex_new = \<lparr>intIndex = Map.empty, stringIndex = Map.empty\<rparr>"

definition InvertedIndex_addEntry ::
  "Entry \<Rightarrow> 'k \<Rightarrow> Values \<Rightarrow> 'k InvertedIndex \<Rightarrow> 'k InvertedIndex" where
  "InvertedIndex_addEntry entry k vals ix =
     (case vals of
        Strings vs \<Rightarrow> ix\<lparr>stringIndex := Impl_addEntry entry k vs (stringIndex ix)\<rparr>
      | Ints vs \<Rightarrow> ix\<lparr>intIndex := Impl_addEntry entry k vs (intIndex ix)\<rparr>)"

definition InvertedIndex_trigger ::
  "PostingListGroup \<Rightarrow> 'k \<Rightarrow> Values \<Rightarrow> 'k InvertedIndex \<Rightarrow> PostingListGroup" where
  "InvertedIndex_trigger grp k vals ix =
     (case vals of
        Strings vs \<Rightarrow> Impl_trigger grp k vs (stringIndex ix)
      | Ints vs \<Rightarrow> Impl_trigger grp k vs (intIndex ix))"

definition InvertedIndex_build :: "'k InvertedIndex \<Rightarrow> 'k InvertedIndex" where
  "InvertedIndex_build ix =
     \<lparr>intIndex = Impl_build (intIndex ix), stringIndex = Impl_build (stringIndex ix)\<rparr>"

section \<open>Documents, result set and assignment\<close>

text \<open>
  \<^verbatim>\<open>Expression\<close>, \<^verbatim>\<open>Conjunction\<close> and \<^verbatim>\<open>Document\<close> are the structs of indexer.h (the field
  \<^verbatim>\<open>values\<close> is \<open>exvalues\<close> here). \<^verbatim>\<open>getConjunctionSize\<close> counts the positive expressions.
  \<^verbatim>\<open>ResultSet\<close> wraps an \<^verbatim>\<open>unordered_set<uint64_t>\<close>. The assignment is a template
  parameter of \<^verbatim>\<open>Indexer\<close>, used through \<^verbatim>\<open>size()\<close> and \<^verbatim>\<open>trigger(callback)\<close> only: it is
  modelled by the number \<^verbatim>\<open>size()\<close> returns and the (key, values) pairs \<^verbatim>\<open>trigger\<close> passes
  to the callback, in order.
\<close>

record 'k Expression =
  key :: 'k
  exvalues :: Values
  positive :: bool

record 'k Conjunction =
  expressions :: "'k Expression list"

record 'k Document =
  conjunctions :: "'k Conjunction list"

definition getConjunctionSize :: "'k Conjunction \<Rightarrow> nat" where
  "getConjunctionSize c = length (filter positive (expressions c))"

record ResultSet =
  result_ids :: "64 word set"

definition addDocumentId :: "64 word \<Rightarrow> ResultSet \<Rightarrow> ResultSet" where
  "addDocumentId d r = r\<lparr>result_ids := insert d (result_ids r)\<rparr>"

record 'k Assignment =
  asize :: nat
  triggers :: "('k \<times> Values) list"

section \<open>Indexer (indexer.h, class Indexer)\<close>

text \<open>
  The fields \<^verbatim>\<open>indexs_\<close> (one inverted index per conjunction size) and \<^verbatim>\<open>z_\<close>. \<^verbatim>\<open>build\<close>
  is the three nested loops over documents \<open>i\<close>, conjunctions \<open>j\<close> and expressions, then
  the sort of every posting list and of \<^verbatim>\<open>z_\<close>. The loop counters are \<^verbatim>\<open>uint64_t\<close>.
\<close>

record 'k Indexer =
  indexs :: "'k InvertedIndex list"
  zlist :: "Entry list"

definition resize :: "'a list \<Rightarrow> nat \<Rightarrow> 'a \<Rightarrow> 'a list" where
  "resize xs n x = take n xs @ replicate (n - length xs) x"

fun build_expressions ::
  "EntryId \<Rightarrow> EntryId \<Rightarrow> nat \<Rightarrow> 'k Expression list \<Rightarrow> 'k InvertedIndex list \<Rightarrow> 'k InvertedIndex list" where
  "build_expressions i j sz [] ixs = ixs"
| "build_expressions i j sz (expr # exprs) ixs =
     (let entry = Entry i j (positive expr);
          ixs1 = (if length ixs < sz + 1 then resize ixs (sz + 1) InvertedIndex_new else ixs);
          ixs2 = ixs1[sz := InvertedIndex_addEntry entry (key expr) (exvalues expr) (ixs1 ! sz)]
      in build_expressions i j sz exprs ixs2)"

fun build_conjunctions ::
  "EntryId \<Rightarrow> nat \<Rightarrow> 'k Conjunction list \<Rightarrow> 'k Indexer \<Rightarrow> 'k Indexer" where
  "build_conjunctions i j [] idx = idx"
| "build_conjunctions i j (c # cs) idx =
     (let sz = getConjunctionSize c;
          ixs = build_expressions i (word_of_nat j) sz (expressions c) (indexs idx);
          z = (if sz = 0 then zlist idx @ [Entry i (word_of_nat j) True] else zlist idx)
      in build_conjunctions i (Suc j) cs \<lparr>indexs = ixs, zlist = z\<rparr>)"

fun build_documents :: "nat \<Rightarrow> 'k Document list \<Rightarrow> 'k Indexer \<Rightarrow> 'k Indexer" where
  "build_documents i [] idx = idx"
| "build_documents i (doc # docs) idx =
     (if conjunctions doc = [] then build_documents (Suc i) docs idx
      else build_documents (Suc i) docs
             (build_conjunctions (word_of_nat i) 0 (conjunctions doc) idx))"

definition build :: "'k Document list \<Rightarrow> 'k Indexer" where
  "build documents =
     (let idx = build_documents 0 documents \<lparr>indexs = [], zlist = []\<rparr>
      in \<lparr>indexs = map InvertedIndex_build (indexs idx), zlist = sort (zlist idx)\<rparr>)"

definition create :: "'k Document list \<Rightarrow> 'k Indexer" where
  "create documents = build documents"

text \<open>
  \<^verbatim>\<open>getPostingLists(result, k, s)\<close>: one group per call of the callback, kept when it is
  not empty; for \<open>k = 0\<close> and a non-empty \<^verbatim>\<open>z_\<close>, the group of \<^verbatim>\<open>z_\<close> last.
\<close>

definition getPostingLists :: "'k Indexer \<Rightarrow> nat \<Rightarrow> 'k Assignment \<Rightarrow> PostingListGroup list" where
  "getPostingLists idx k s =
     (let res = foldl (\<lambda>res (ky, vals).
                    let grp = InvertedIndex_trigger PostingListGroup_new ky vals (indexs idx ! k)
                    in if \<not> PostingListGroup_empty grp then res @ [grp] else res)
                  [] (triggers s)
      in if k = 0 \<and> zlist idx \<noteq> []
         then res @ [PostingListGroup_add (PostingList_new (zlist idx)) PostingListGroup_new]
         else res)"

text \<open>
  The loop of the veto branch over the groups from index \<open>k\<close> on:
  \<^verbatim>\<open>for (l = k; l < plists.size(); ++l) if (plists[l].current().id() == rejectId)
  plists[l].skipTo(rejectId + 1); else break;\<close>
\<close>

fun veto :: "EntryId \<Rightarrow> PostingListGroup list \<Rightarrow> PostingListGroup list" where
  "veto rejectId [] = []"
| "veto rejectId (g # gs) =
     (if entry_id (PostingListGroup_current g) = rejectId
      then PostingListGroup_skipTo (rejectId + 1) g # veto rejectId gs
      else g # gs)"

text \<open>
  One pass of the body of \<^verbatim>\<open>for (;;)\<close> after the sort and the test of
  \<^verbatim>\<open>plists[k - 1].empty()\<close>: the comparison of the ids of group 0 and group \<open>k - 1\<close>, the
  veto or the match, \<^verbatim>\<open>nextId\<close>, and \<^verbatim>\<open>skipTo(nextId)\<close> on the first \<open>k\<close> groups.
\<close>

definition merge_step ::
  "nat \<Rightarrow> PostingListGroup list \<Rightarrow> ResultSet \<Rightarrow> PostingListGroup list \<times> ResultSet" where
  "merge_step k plists res =
     (case
        (if entry_id (PostingListGroup_current (plists ! 0))
            = entry_id (PostingListGroup_current (plists ! (k - 1)))
         then
           (if isNegative (PostingListGroup_current (plists ! 0))
            then
              (let rejectId = entry_id (PostingListGroup_current (plists ! 0));
                   plists1 = take k plists @ veto rejectId (drop k plists)
               in (plists1, res, entry_id (PostingListGroup_current (plists1 ! (k - 1))) + 1))
            else
              (let e = PostingListGroup_current (plists ! (k - 1));
                   docId = documentId e
               in (plists, addDocumentId docId res,
                   entry_id (PostingListGroup_current (plists ! (k - 1))) + 1)))
         else (plists, res, entry_id (PostingListGroup_current (plists ! (k - 1)))))
      of (plists1, res1, nextId) \<Rightarrow>
        (map (PostingListGroup_skipTo nextId) (take k plists1) @ drop k plists1, res1))"

subsection \<open>The inner loop terminates\<close>

text \<open>
  The weight of a group is the number of entries its members still have before them, plus
  one if its \<^verbatim>\<open>current_\<close> is not the minimum over its members. \<^verbatim>\<open>skipTo\<close> never raises
  it, and lowers it on a non-empty group whose current id is below the target.
\<close>

definition pending_total :: "PostingList list \<Rightarrow> nat" where
  "pending_total ps = sum_list (map (\<lambda>p. length (pending p)) ps)"

definition group_weight :: "PostingListGroup \<Rightarrow> nat" where
  "group_weight g =
     pending_total (grp_plists g)
     + (if grp_current g = members_min Entry_max (grp_plists g) then 0 else 1)"

definition groups_weight :: "PostingListGroup list \<Rightarrow> nat" where
  "groups_weight gs = sum_list (map group_weight gs)"

lemma pending_skipTo_le: "length (pending (PostingList_skipTo t p)) \<le> length (pending p)"
  by (simp add: PostingList_skipTo_eq length_dropWhile_le)

lemma pending_total_skipTo_le:
  "pending_total (map (PostingList_skipTo t) ps) \<le> pending_total ps"
  unfolding pending_total_def
  by (induction ps) (simp_all add: add_mono pending_skipTo_le)

lemma pending_total_skipTo_less:
  assumes "p \<in> set ps" "\<not> PostingList_empty p" "entry_id (PostingList_current p) < t"
  shows "pending_total (map (PostingList_skipTo t) ps) < pending_total ps"
  using assms
proof (induction ps)
  case Nil
  then show ?case by simp
next
  case (Cons q ps)
  have le: "length (pending (PostingList_skipTo t q)) \<le> length (pending q)"
    by (rule pending_skipTo_le)
  show ?case
  proof (cases "p = q")
    case True
    obtain e es where pe: "pending q = e # es"
      using Cons.prems(2) True by (cases "pending q") (auto simp add: PostingList_empty_def)
    have "length (pending (PostingList_skipTo t q)) < length (pending q)"
      using Cons.prems(3) True pe
      by (simp add: PostingList_skipTo_eq PostingList_current_def le_imp_less_Suc length_dropWhile_le)
    then show ?thesis
      using pending_total_skipTo_le[of t ps] by (simp add: pending_total_def)
  next
    case False
    then have "pending_total (map (PostingList_skipTo t) ps) < pending_total ps"
      using Cons by simp
    then show ?thesis using le by (simp add: pending_total_def)
  qed
qed

lemma group_weight_skipTo_le: "group_weight (PostingListGroup_skipTo t g) \<le> group_weight g"
  using pending_total_skipTo_le[of t "grp_plists g"]
  by (simp add: PostingListGroup_skipTo_eq group_weight_def)

lemma group_weight_skipTo_less:
  assumes "grp_current g \<noteq> Entry_max" "entry_id (grp_current g) < t"
  shows "group_weight (PostingListGroup_skipTo t g) < group_weight g"
proof (cases "grp_current g = members_min Entry_max (grp_plists g)")
  case True
  then obtain p where "p \<in> set (grp_plists g)" "\<not> PostingList_empty p"
      "PostingList_current p = grp_current g"
    using members_min_cases[of Entry_max "grp_plists g"] assms(1) by auto
  then have "pending_total (map (PostingList_skipTo t) (grp_plists g)) < pending_total (grp_plists g)"
    using assms(2) by (intro pending_total_skipTo_less[of p]) simp_all
  then show ?thesis
    using assms(1) by (simp add: PostingListGroup_skipTo_eq group_weight_def)
next
  case False
  then show ?thesis
    using pending_total_skipTo_le[of t "grp_plists g"] assms(1)
    by (simp add: PostingListGroup_skipTo_eq group_weight_def)
qed

lemma groups_weight_append [simp]:
  "groups_weight (xs @ ys) = groups_weight xs + groups_weight ys"
  by (simp add: groups_weight_def)

lemma groups_weight_map_skipTo_le:
  "groups_weight (map (PostingListGroup_skipTo t) gs) \<le> groups_weight gs"
  unfolding groups_weight_def
  by (induction gs) (simp_all add: add_mono group_weight_skipTo_le)

lemma groups_weight_veto_le: "groups_weight (veto r gs) \<le> groups_weight gs"
  unfolding groups_weight_def
  by (induction gs) (simp_all add: add_mono group_weight_skipTo_le)

lemma sum_list_map_insort_key:
  "sum_list (map (w :: 'a \<Rightarrow> nat) (insort_key f x xs)) = w x + sum_list (map w xs)"
  by (induction xs) simp_all

lemma sum_list_map_sort_key:
  "sum_list (map (w :: 'a \<Rightarrow> nat) (sort_key f gs)) = sum_list (map w gs)"
  by (induction gs) (simp_all add: sum_list_map_insort_key)

lemma groups_weight_sort_key [simp]: "groups_weight (sort_key f gs) = groups_weight gs"
  by (simp add: groups_weight_def sum_list_map_sort_key)

lemma groups_weight_map_skipTo_less:
  assumes "gs \<noteq> []" "grp_current (hd gs) \<noteq> Entry_max" "entry_id (grp_current (hd gs)) < t"
  shows "groups_weight (map (PostingListGroup_skipTo t) gs) < groups_weight gs"
proof -
  obtain g rest where gs: "gs = g # rest" using assms(1) by (cases gs) auto
  have "group_weight (PostingListGroup_skipTo t g) < group_weight g"
    using assms(2,3) gs by (intro group_weight_skipTo_less) simp_all
  moreover have "groups_weight (map (PostingListGroup_skipTo t) rest) \<le> groups_weight rest"
    by (rule groups_weight_map_skipTo_le)
  ultimately show ?thesis
    by (simp add: gs groups_weight_def)
qed

lemma merge_step_weight:
  assumes srt: "sorted (map grp_current gs)" and k: "0 < k" "k \<le> length gs"
    and ne: "grp_current (gs ! (k - 1)) \<noteq> Entry_max"
  shows "groups_weight (fst (merge_step k gs res)) < groups_weight gs"
proof -
  let ?c0 = "grp_current (gs ! 0)" and ?ck = "grp_current (gs ! (k - 1))"
  have le: "?c0 \<le> ?ck"
    using srt k by (simp add: sorted_iff_nth_mono)
  have c0: "?c0 \<noteq> Entry_max"
    using le ne Entry_max_top[of ?ck] by auto
  have tk: "take k gs \<noteq> []" and hd: "hd (take k gs) = gs ! 0"
    using k by (cases gs; cases k; simp)+
  have split: "groups_weight gs = groups_weight (take k gs) + groups_weight (drop k gs)"
    by (metis append_take_drop_id groups_weight_append)
  have step: "groups_weight (map (PostingListGroup_skipTo t) (take k gs) @ rest) < groups_weight gs"
    if "entry_id ?c0 < t" "groups_weight rest \<le> groups_weight (drop k gs)" for t rest
    using groups_weight_map_skipTo_less[OF tk, of t] that c0 hd split by simp
  have lt: "entry_id ?c0 < entry_id ?ck" if "entry_id ?c0 \<noteq> entry_id ?ck"
    using entry_id_mono[OF le] that by simp
  have nth1: "(take k gs @ rest) ! (k - Suc 0) = gs ! (k - Suc 0)" for rest
    using k by (simp add: nth_append)
  have tk1: "take k (take k gs @ rest) = take k gs" and dk1: "drop k (take k gs @ rest) = rest" for rest
    using k by simp_all
  show ?thesis
  proof (cases "entry_id ?c0 = entry_id ?ck")
    case False
    then show ?thesis
      using step[of "entry_id ?ck" "drop k gs"] lt
      by (simp add: merge_step_def PostingListGroup_current_def)
  next
    case eq: True
    have lt1: "entry_id ?c0 < entry_id ?ck + 1"
      using entry_id_less_Suc[of ?ck] eq by simp
    show ?thesis
    proof (cases "isNegative ?c0")
      case True
      show ?thesis
        using step[OF lt1 groups_weight_veto_le[of "entry_id ?c0" "drop k gs"]] eq True k
        by (simp add: merge_step_def PostingListGroup_current_def Let_def nth1 tk1 dk1 min_absorb2)
    next
      case False
      then show ?thesis
        using step[OF lt1, of "drop k gs"] eq
        by (simp add: merge_step_def PostingListGroup_current_def Let_def)
    qed
  qed
qed

text \<open>
  The loop \<^verbatim>\<open>for (;;) { std::sort(plists.begin(), plists.end()); if (plists[k - 1].empty())
  break; ... }\<close>. \<^verbatim>\<open>std::sort\<close> orders the groups by \<^verbatim>\<open>current()\<close>; it is modelled by the
  insertion sort \<open>sort_key\<close>. The source enters the loop with \<open>1 \<le> k \<le> plists.size()\<close>
  only; the model returns the result set as it is outside that range.
\<close>

function merge_loop :: "nat \<Rightarrow> PostingListGroup list \<Rightarrow> ResultSet \<Rightarrow> ResultSet" where
  "merge_loop k plists res =
     (let plists0 = sort_key PostingListGroup_current plists in
      if k = 0 \<or> length plists0 < k then res
      else if PostingListGroup_empty (plists0 ! (k - 1)) then res
      else (case merge_step k plists0 res of (plists', res') \<Rightarrow> merge_loop k plists' res'))"
  by pat_completeness auto
termination
proof (relation "measure (\<lambda>(k, plists, res). groups_weight plists)")
  show "wf (measure (\<lambda>(k, plists, res). groups_weight plists))" by simp
next
  fix k :: nat and plists :: "PostingListGroup list" and res :: ResultSet
    and plists0 plists' res'
  assume a: "plists0 = sort_key PostingListGroup_current plists"
    "\<not> (k = 0 \<or> length plists0 < k)"
    "\<not> PostingListGroup_empty (plists0 ! (k - 1))"
    "(plists', res') = merge_step k plists0 res"
  have s: "sorted (map grp_current plists0)"
    unfolding a(1) using sorted_sort_key[of PostingListGroup_current plists]
    by (simp add: PostingListGroup_current_def[abs_def])
  have "groups_weight (fst (merge_step k plists0 res)) < groups_weight plists0"
    using a(2,3) by (intro merge_step_weight[OF s]) (simp_all add: PostingListGroup_empty_def)
  moreover have "fst (merge_step k plists0 res) = plists'"
    using a(4) by (metis fst_conv)
  ultimately show "((k, plists', res'), (k, plists, res)) \<in> measure (\<lambda>(k, plists, res). groups_weight plists)"
    using a(1) by simp
qed

declare merge_loop.simps [simp del]

text \<open>
  \<^verbatim>\<open>retrieve(result, s)\<close>: \<^verbatim>\<open>for (int i = std::min<int>(indexs_.size() - 1, s.size());
  i >= 0; --i)\<close>. \<^verbatim>\<open>indexs_.size() - 1\<close> is computed in \<^verbatim>\<open>size_t\<close> (64 bits, wrapping at
  0) and both arguments are converted to \<^verbatim>\<open>int\<close> (32 bits, two's complement).
\<close>

definition to_int :: "64 word \<Rightarrow> int" where
  "to_int n = sint (ucast n :: 32 word)"

definition retrieve_size :: "'k Indexer \<Rightarrow> 'k Assignment \<Rightarrow> nat \<Rightarrow> ResultSet \<Rightarrow> ResultSet" where
  "retrieve_size idx s i res =
     (let plists = getPostingLists idx i s;
          k = (if i = 0 then 1 else i)
      in if length plists < k then res else merge_loop k plists res)"

fun retrieve_from :: "'k Indexer \<Rightarrow> 'k Assignment \<Rightarrow> nat \<Rightarrow> ResultSet \<Rightarrow> ResultSet" where
  "retrieve_from idx s 0 res = retrieve_size idx s 0 res"
| "retrieve_from idx s (Suc i) res = retrieve_from idx s i (retrieve_size idx s (Suc i) res)"

definition retrieve :: "'k Indexer \<Rightarrow> 'k Assignment \<Rightarrow> ResultSet \<Rightarrow> ResultSet" where
  "retrieve idx s res =
     (let i0 = min (to_int (word_of_nat (length (indexs idx)) - 1))
                   (to_int (word_of_nat (asize s)))
      in if 0 \<le> i0 then retrieve_from idx s (nat i0) res else res)"



section \<open>Properties of the retrieval loops\<close>

subsection \<open>One pass of the inner loop\<close>

lemma veto_eq:
  "veto r gs =
     map (PostingListGroup_skipTo (r + 1))
       (takeWhile (\<lambda>g. entry_id (PostingListGroup_current g) = r) gs)
     @ dropWhile (\<lambda>g. entry_id (PostingListGroup_current g) = r) gs"
  by (induction gs) simp_all

text \<open>What one pass of the loop body does to the groups, and what it emits.\<close>

definition step_next :: "nat \<Rightarrow> PostingListGroup list \<Rightarrow> EntryId" where
  "step_next k gs =
     (if entry_id (grp_current (gs ! 0)) = entry_id (grp_current (gs ! (k - 1)))
      then entry_id (grp_current (gs ! (k - 1))) + 1
      else entry_id (grp_current (gs ! (k - 1))))"

definition step_groups :: "nat \<Rightarrow> PostingListGroup list \<Rightarrow> PostingListGroup list" where
  "step_groups k gs =
     map (PostingListGroup_skipTo (step_next k gs)) (take k gs)
     @ (if entry_id (grp_current (gs ! 0)) = entry_id (grp_current (gs ! (k - 1)))
           \<and> isNegative (grp_current (gs ! 0))
        then veto (entry_id (grp_current (gs ! 0))) (drop k gs)
        else drop k gs)"

definition step_emit :: "nat \<Rightarrow> PostingListGroup list \<Rightarrow> EntryId option" where
  "step_emit k gs =
     (if entry_id (grp_current (gs ! 0)) = entry_id (grp_current (gs ! (k - 1)))
         \<and> \<not> isNegative (grp_current (gs ! 0))
      then Some (documentId (grp_current (gs ! (k - 1))))
      else None)"

lemma merge_step_eq:
  assumes "0 < k" "k \<le> length gs"
  shows "merge_step k gs res =
     (step_groups k gs, case step_emit k gs of None \<Rightarrow> res | Some d \<Rightarrow> addDocumentId d res)"
proof -
  have nth1: "(take k gs @ rest) ! (k - Suc 0) = gs ! (k - Suc 0)" for rest
    using assms by (simp add: nth_append)
  show ?thesis
    using assms
    by (simp add: merge_step_def step_groups_def step_emit_def step_next_def Let_def
          PostingListGroup_current_def nth1 min_absorb2)
qed

text \<open>
  C6. In one pass of the inner loop in which the first \<open>k\<close> (required) groups agree on an
  id and the current entry of group 0 is negative, with \<open>r\<close> the id of group 0: the first
  \<open>k\<close> groups are advanced by the uniform pass \<^verbatim>\<open>skipTo(next)\<close> with \<open>next = r + 1\<close>; of the
  groups from index \<open>k\<close> on, exactly those of the longest prefix whose current id is \<open>r\<close>
  are advanced by \<^verbatim>\<open>skipTo(r + 1)\<close>; the groups from the first mismatch on are untouched;
  and nothing is added to the result set.
\<close>

theorem merge_step_veto:
  assumes "0 < k" and "k \<le> length plists"
    and "entry_id (PostingListGroup_current (plists ! 0))
         = entry_id (PostingListGroup_current (plists ! (k - 1)))"
    and "isNegative (PostingListGroup_current (plists ! 0))"
  shows "merge_step k plists res =
     (map (PostingListGroup_skipTo (entry_id (PostingListGroup_current (plists ! 0)) + 1))
          (take k plists)
      @ map (PostingListGroup_skipTo (entry_id (PostingListGroup_current (plists ! 0)) + 1))
          (takeWhile (\<lambda>g. entry_id (PostingListGroup_current g)
                             = entry_id (PostingListGroup_current (plists ! 0)))
             (drop k plists))
      @ dropWhile (\<lambda>g. entry_id (PostingListGroup_current g)
                         = entry_id (PostingListGroup_current (plists ! 0)))
          (drop k plists),
      res)"
  using assms(3,4)
  by (simp add: merge_step_eq[OF assms(1,2)] step_groups_def step_emit_def step_next_def
        veto_eq PostingListGroup_current_def)

definition veto_groups :: "PostingListGroup list" where
  "veto_groups =
     [PostingListGroup_add (PostingList_new [4]) PostingListGroup_new,
      PostingListGroup_add (PostingList_new [5, 8]) PostingListGroup_new,
      PostingListGroup_add (PostingList_new [9]) PostingListGroup_new]"

theorem merge_step_veto_witness:
  "(0 :: nat) < 1 \<and> 1 \<le> length veto_groups
   \<and> entry_id (PostingListGroup_current (veto_groups ! 0)) = 2
   \<and> entry_id (PostingListGroup_current (veto_groups ! (1 - 1))) = 2
   \<and> isNegative (PostingListGroup_current (veto_groups ! 0))
   \<and> merge_step 1 veto_groups \<lparr>result_ids = {7}\<rparr>
       = ([\<lparr>grp_current = Entry_max, grp_plists = [\<lparr>passed = [4], pending = []\<rparr>]\<rparr>,
           \<lparr>grp_current = 8, grp_plists = [\<lparr>passed = [5], pending = [8]\<rparr>]\<rparr>,
           \<lparr>grp_current = 9, grp_plists = [\<lparr>passed = [], pending = [9]\<rparr>]\<rparr>],
          \<lparr>result_ids = {7}\<rparr>)"
proof -
  have a: "(0 :: nat) < 1" and b: "1 \<le> length veto_groups"
    by (simp_all add: veto_groups_def)
  have c: "entry_id (PostingListGroup_current (veto_groups ! 0))
         = entry_id (PostingListGroup_current (veto_groups ! (1 - 1)))"
    by simp
  have d: "isNegative (PostingListGroup_current (veto_groups ! 0))"
    by (simp add: veto_groups_def eval_simps)
  show ?thesis
    using merge_step_veto[OF a b c d, of "\<lparr>result_ids = {7}\<rparr>"]
    by (simp add: veto_groups_def eval_simps)
qed

subsection \<open>The result set only grows, by a set that does not depend on it\<close>

definition loop_done :: "nat \<Rightarrow> PostingListGroup list \<Rightarrow> bool" where
  "loop_done k gs \<longleftrightarrow>
     k = 0 \<or> length gs < k
     \<or> grp_current (sort_key PostingListGroup_current gs ! (k - 1)) = Entry_max"

definition emit :: "EntryId option \<Rightarrow> ResultSet \<Rightarrow> ResultSet" where
  "emit d res = (case d of None \<Rightarrow> res | Some x \<Rightarrow> addDocumentId x res)"

lemma merge_loop_done: "loop_done k gs \<Longrightarrow> merge_loop k gs res = res"
  by (subst merge_loop.simps) (auto simp add: loop_done_def Let_def PostingListGroup_empty_def)

lemma merge_loop_step:
  assumes "\<not> loop_done k gs"
  shows "merge_loop k gs res =
     merge_loop k (step_groups k (sort_key PostingListGroup_current gs))
       (emit (step_emit k (sort_key PostingListGroup_current gs)) res)"
proof -
  let ?s = "sort_key PostingListGroup_current gs"
  have k: "0 < k" "k \<le> length ?s" using assms by (auto simp add: loop_done_def)
  have "\<not> PostingListGroup_empty (?s ! (k - 1))"
    using assms by (simp add: loop_done_def PostingListGroup_empty_def)
  then show ?thesis
    using k by (subst merge_loop.simps) (simp add: Let_def merge_step_eq[OF k] emit_def)
qed

lemma result_ids_emit:
  "result_ids (emit d r) = result_ids r \<union> (case d of None \<Rightarrow> {} | Some x \<Rightarrow> {x})"
  by (simp add: emit_def addDocumentId_def split: option.splits)

lemma merge_loop_acc_all:
  fixes res :: ResultSet
  shows "\<forall>R. result_ids (merge_loop k gs R)
           = result_ids R \<union> result_ids (merge_loop k gs \<lparr>result_ids = {}\<rparr>)"
proof (induction k gs res rule: merge_loop.induct)
  case (1 k plists res)
  let ?s = "sort_key PostingListGroup_current plists"
  show ?case
  proof (rule allI, cases "loop_done k plists")
    case True
    then show "result_ids (merge_loop k plists R)
        = result_ids R \<union> result_ids (merge_loop k plists \<lparr>result_ids = {}\<rparr>)" for R
      by (simp add: merge_loop_done)
  next
    case False
    then have k: "0 < k" "k \<le> length ?s" by (auto simp add: loop_done_def)
    have ne: "\<not> PostingListGroup_empty (?s ! (k - 1))"
      using False by (simp add: loop_done_def PostingListGroup_empty_def)
    have c1: "\<not> (k = 0 \<or> length ?s < k)" using k by simp
    have ih: "result_ids (merge_loop k (step_groups k ?s) r)
        = result_ids r \<union> result_ids (merge_loop k (step_groups k ?s) \<lparr>result_ids = {}\<rparr>)" for r
      using 1[OF refl c1 ne merge_step_eq[OF k, symmetric]] by (rule spec)
    show "result_ids (merge_loop k plists R)
        = result_ids R \<union> result_ids (merge_loop k plists \<lparr>result_ids = {}\<rparr>)" for R
    proof -
      let ?d = "step_emit k ?s" and ?E = "\<lparr>result_ids = {}\<rparr>"
      have a: "result_ids (merge_loop k plists R)
          = result_ids (emit ?d R) \<union> result_ids (merge_loop k (step_groups k ?s) ?E)"
        by (simp only: merge_loop_step[OF False, of R] ih[of "emit ?d R"])
      have b: "result_ids (merge_loop k plists ?E)
          = result_ids (emit ?d ?E) \<union> result_ids (merge_loop k (step_groups k ?s) ?E)"
        by (simp only: merge_loop_step[OF False, of ?E] ih[of "emit ?d ?E"])
      show ?thesis
        unfolding a b result_ids_emit by auto
    qed
  qed
qed

lemma merge_loop_acc:
  "result_ids (merge_loop k gs R) = result_ids R \<union> result_ids (merge_loop k gs \<lparr>result_ids = {}\<rparr>)"
  using merge_loop_acc_all[of k gs] by blast

lemma retrieve_size_acc:
  "result_ids (retrieve_size idx s i R)
     = result_ids R \<union> result_ids (retrieve_size idx s i \<lparr>result_ids = {}\<rparr>)"
  using merge_loop_acc[of _ _ R] by (simp add: retrieve_size_def Let_def)

lemma retrieve_from_acc:
  "result_ids (retrieve_from idx s i R)
     = result_ids R \<union> result_ids (retrieve_from idx s i \<lparr>result_ids = {}\<rparr>)"
proof (induction i arbitrary: R)
  case 0
  then show ?case using retrieve_size_acc[of idx s 0 R] by simp
next
  case (Suc i)
  show ?case
    using Suc[of "retrieve_size idx s (Suc i) R"]
      Suc[of "retrieve_size idx s (Suc i) \<lparr>result_ids = {}\<rparr>"]
      retrieve_size_acc[of idx s "Suc i" R]
    by auto
qed

lemma retrieve_acc:
  "result_ids (retrieve idx s R)
     = result_ids R \<union> result_ids (retrieve idx s \<lparr>result_ids = {}\<rparr>)"
  using retrieve_from_acc[of idx s _ R] by (simp add: retrieve_def Let_def)

text \<open>
  C9. \<^verbatim>\<open>retrieve\<close> is a function of the index, the assignment and the result set it is
  given, and the index is not changed by it; what it adds to the result set does not
  depend on what the set held. So two calls with the same assignment, each into a fresh
  empty result set, give the same set, and a second call into the result of the first
  adds nothing.
\<close>

theorem retrieve_idempotent:
  "result_ids (retrieve idx s res)
     = result_ids res \<union> result_ids (retrieve idx s \<lparr>result_ids = {}\<rparr>)
   \<and> retrieve idx s (retrieve idx s \<lparr>result_ids = {}\<rparr>) = retrieve idx s \<lparr>result_ids = {}\<rparr>"
proof -
  have "result_ids (retrieve idx s (retrieve idx s \<lparr>result_ids = {}\<rparr>))
      = result_ids (retrieve idx s \<lparr>result_ids = {}\<rparr>)"
    using retrieve_acc[of idx s "retrieve idx s \<lparr>result_ids = {}\<rparr>"] by simp
  then show ?thesis
    using retrieve_acc[of idx s res] by simp
qed

subsection \<open>A document whose only conjunction is empty\<close>

lemma ucast_minus1: "(ucast (- 1 :: 64 word) :: 32 word) = - 1"
  by (rule bit_word_eqI) (simp add: bit_simps)

lemma to_int_minus1: "to_int (- 1) = - 1"
  by (simp add: to_int_def ucast_minus1)

text \<open>
  C3 on the index built from one document whose one conjunction has no expression.
  \<^verbatim>\<open>build\<close> resizes \<^verbatim>\<open>indexs_\<close> inside the loop over the expressions only, so \<^verbatim>\<open>indexs_\<close>
  stays empty while \<^verbatim>\<open>z_\<close> receives the Entry of the conjunction; in \<^verbatim>\<open>retrieve\<close>,
  \<^verbatim>\<open>indexs_.size() - 1\<close> wraps and becomes \<open>-1\<close> as an \<^verbatim>\<open>int\<close>, the loop over the sizes is
  not entered and \<^verbatim>\<open>z_\<close> is never read: for every assignment the result set stays empty.
\<close>

theorem retrieve_only_empty_conjunction:
  "create [\<lparr>conjunctions = [\<lparr>expressions = []\<rparr>]\<rparr>] = \<lparr>indexs = [], zlist = [Entry 0 0 True]\<rparr>
   \<and> result_ids (retrieve (create [\<lparr>conjunctions = [\<lparr>expressions = []\<rparr>]\<rparr>]) s
                   \<lparr>result_ids = {}\<rparr>) = {}"
  by (simp add: create_def build_def getConjunctionSize_def retrieve_def to_int_minus1 Let_def)


section \<open>Groups and the inner loop, as sets of entries\<close>

subsection \<open>Entries with the same id\<close>

lemma isNegative_even: "isNegative e \<longleftrightarrow> even (unat e)"
proof -
  have "bit (unat e) 0 = bit e 0" by (simp add: bit_unsigned_iff)
  then show ?thesis
    unfolding isNegative_def and_1_bit0 by (simp add: bit_0)
qed

lemma unat_Entry_of_id:
  "unat e = 2 * unat (entry_id e) + (if isNegative e then 0 else 1)"
  unfolding unat_entry_id isNegative_even by presburger

lemma same_id_same_polarity:
  "entry_id a = entry_id b \<Longrightarrow> isNegative a = isNegative b \<Longrightarrow> a = b"
  using unat_Entry_of_id[of a] unat_Entry_of_id[of b] by (simp add: word_unat_eq_iff)

lemma entry_id_less_imp_less: "entry_id a < entry_id b \<Longrightarrow> a < b"
  using entry_id_mono[of b a] by (auto simp add: not_le[symmetric])

lemma same_id_neg_less_pos:
  "entry_id a = entry_id b \<Longrightarrow> isNegative a \<Longrightarrow> \<not> isNegative b \<Longrightarrow> a < b"
  unfolding word_less_nat_alt unat_Entry_of_id[of a] unat_Entry_of_id[of b] by simp

lemma documentId_entry_id: "documentId e = drop_bit 16 (entry_id e)"
  unfolding documentId_def entry_id_def by (simp add: drop_bit_drop_bit)

lemma entry_id_Suc_le_iff: "entry_id a + 1 \<le> x \<longleftrightarrow> entry_id a < x"
  unfolding word_le_nat_alt word_less_nat_alt unat_entry_id_Suc by auto

subsection \<open>Groups as sets of entries\<close>

definition grp_entries :: "PostingListGroup \<Rightarrow> Entry set" where
  "grp_entries g = (\<Union>p \<in> set (grp_plists g). set (pending p))"

definition grp_ok :: "PostingListGroup \<Rightarrow> bool" where
  "grp_ok g \<longleftrightarrow>
     (\<forall>p \<in> set (grp_plists g). sorted (pending p))
     \<and> Entry_max \<notin> grp_entries g
     \<and> grp_current g = members_min Entry_max (grp_plists g)"

lemma members_min_le_init: "members_min m ps \<le> m"
proof (induction ps arbitrary: m)
  case Nil
  then show ?case by simp
next
  case (Cons p ps)
  have "members_min (min m (PostingList_current p)) ps \<le> min m (PostingList_current p)"
    by (rule Cons.IH)
  then have "members_min (min m (PostingList_current p)) ps \<le> m" by simp
  then show ?case using Cons.IH[of m] by simp
qed

lemma members_min_le:
  assumes "p \<in> set ps" "\<not> PostingList_empty p"
  shows "members_min m ps \<le> PostingList_current p"
  using assms
proof (induction ps arbitrary: m)
  case Nil
  then show ?case by simp
next
  case (Cons q ps)
  show ?case
  proof (cases "p = q")
    case True
    have "members_min (min m (PostingList_current q)) ps \<le> min m (PostingList_current q)"
      by (rule members_min_le_init)
    then show ?thesis using True Cons.prems(2) by simp
  next
    case False
    then show ?thesis using Cons by simp
  qed
qed

lemma grp_current_le:
  assumes "grp_ok g" "e \<in> grp_entries g"
  shows "grp_current g \<le> e"
proof -
  obtain p where p: "p \<in> set (grp_plists g)" "e \<in> set (pending p)"
    using assms(2) by (auto simp add: grp_entries_def)
  then have ne: "\<not> PostingList_empty p" by (auto simp add: PostingList_empty_def)
  have "sorted (pending p)" using assms(1) p(1) by (simp add: grp_ok_def)
  then have "hd (pending p) \<le> e"
    using p(2) by (cases "pending p") auto
  moreover have "grp_current g \<le> PostingList_current p"
    using assms(1) members_min_le[OF p(1) ne] by (simp add: grp_ok_def)
  ultimately show ?thesis by (simp add: PostingList_current_def)
qed

lemma grp_current_in:
  assumes "grp_ok g" "grp_current g \<noteq> Entry_max"
  shows "grp_current g \<in> grp_entries g"
proof -
  obtain p where "p \<in> set (grp_plists g)" "\<not> PostingList_empty p"
    "PostingList_current p = grp_current g"
    using assms members_min_cases[of Entry_max "grp_plists g"] by (auto simp add: grp_ok_def)
  moreover have "pending p \<noteq> [] \<Longrightarrow> hd (pending p) \<in> set (pending p)"
    by simp
  ultimately show ?thesis
    by (auto simp add: grp_entries_def PostingList_empty_def PostingList_current_def
          simp del: hd_in_set intro!: bexI[of _ p])
qed

lemma grp_current_max_iff:
  assumes "grp_ok g"
  shows "grp_current g = Entry_max \<longleftrightarrow> grp_entries g = {}"
proof
  assume m: "grp_current g = Entry_max"
  show "grp_entries g = {}"
  proof (rule ccontr)
    assume "grp_entries g \<noteq> {}"
    then obtain e where e: "e \<in> grp_entries g" by auto
    then have "Entry_max \<le> e" using grp_current_le[OF assms e] m by simp
    then have "e = Entry_max" using Entry_max_top[of e] by simp
    then show False using assms e by (simp add: grp_ok_def)
  qed
next
  assume "grp_entries g = {}"
  then show "grp_current g = Entry_max"
    using grp_current_in[OF assms] by auto
qed

lemma set_dropWhile_sorted:
  assumes "sorted xs"
  shows "dropWhile (\<lambda>e. entry_id e < t) xs = filter (\<lambda>e. t \<le> entry_id e) xs"
  using assms
proof (induction xs)
  case Nil
  then show ?case by simp
next
  case (Cons x xs)
  show ?case
  proof (cases "entry_id x < t")
    case True
    then show ?thesis using Cons by simp
  next
    case False
    have "\<forall>y \<in> set xs. t \<le> entry_id y"
      using Cons.prems False entry_id_mono[of x] by (auto simp add: not_less intro: order_trans)
    then have "filter (\<lambda>e. t \<le> entry_id e) xs = xs" by (simp add: filter_id_conv)
    then show ?thesis using False by simp
  qed
qed

lemma pending_skipTo_sorted:
  assumes "sorted (pending p)"
  shows "pending (PostingList_skipTo t p) = filter (\<lambda>e. t \<le> entry_id e) (pending p)"
  by (simp add: PostingList_skipTo_eq set_dropWhile_sorted[OF assms])

lemma grp_skipTo_ok:
  assumes "grp_ok g"
  shows "grp_ok (PostingListGroup_skipTo t g)"
    and "grp_entries (PostingListGroup_skipTo t g) = {e \<in> grp_entries g. t \<le> entry_id e}"
proof -
  show "grp_ok (PostingListGroup_skipTo t g)"
  proof (cases "grp_current g = Entry_max")
    case True
    then show ?thesis using assms by (simp add: PostingListGroup_skipTo_eq)
  next
    case False
    have "\<forall>p \<in> set (grp_plists g). set (pending (PostingList_skipTo t p)) \<subseteq> set (pending p)"
      using assms by (auto simp add: grp_ok_def pending_skipTo_sorted)
    then have "Entry_max \<notin> (\<Union>p \<in> set (grp_plists g). set (pending (PostingList_skipTo t p)))"
      using assms by (auto simp add: grp_ok_def grp_entries_def)
    moreover have "\<forall>p \<in> set (grp_plists g). sorted (pending (PostingList_skipTo t p))"
      using assms by (auto simp add: grp_ok_def pending_skipTo_sorted sorted_wrt_filter)
    ultimately show ?thesis
      using False by (simp add: PostingListGroup_skipTo_eq grp_ok_def grp_entries_def)
  qed
  show "grp_entries (PostingListGroup_skipTo t g) = {e \<in> grp_entries g. t \<le> entry_id e}"
  proof (cases "grp_current g = Entry_max")
    case True
    then have "grp_entries g = {}" using grp_current_max_iff[OF assms] by simp
    then show ?thesis using True by (simp add: PostingListGroup_skipTo_eq)
  next
    case False
    have "\<And>p. p \<in> set (grp_plists g) \<Longrightarrow>
        set (pending (PostingList_skipTo t p)) = {e \<in> set (pending p). t \<le> entry_id e}"
      using assms by (auto simp add: grp_ok_def pending_skipTo_sorted)
    then show ?thesis
      using False by (auto simp add: PostingListGroup_skipTo_eq grp_entries_def)
  qed
qed

subsection \<open>What the inner loop is to find\<close>

definition has_pos :: "PostingListGroup \<Rightarrow> EntryId \<Rightarrow> bool" where
  "has_pos g X \<longleftrightarrow> (\<exists>e \<in> grp_entries g. entry_id e = X \<and> \<not> isNegative e)"

definition has_neg :: "PostingListGroup \<Rightarrow> EntryId \<Rightarrow> bool" where
  "has_neg g X \<longleftrightarrow> (\<exists>e \<in> grp_entries g. entry_id e = X \<and> isNegative e)"

definition pos_count :: "PostingListGroup list \<Rightarrow> EntryId \<Rightarrow> nat" where
  "pos_count gs X = length (filter (\<lambda>g. has_pos g X) gs)"

definition matches :: "nat \<Rightarrow> PostingListGroup list \<Rightarrow> EntryId \<Rightarrow> bool" where
  "matches k gs X \<longleftrightarrow> k \<le> pos_count gs X \<and> (\<forall>g \<in> set gs. \<not> has_neg g X)"

definition at_most :: "nat \<Rightarrow> PostingListGroup list \<Rightarrow> bool" where
  "at_most k gs \<longleftrightarrow> (\<forall>X. pos_count gs X \<le> k)"

definition shrunk :: "EntryId \<Rightarrow> PostingListGroup \<Rightarrow> PostingListGroup \<Rightarrow> bool" where
  "shrunk t g' g \<longleftrightarrow>
     grp_ok g' \<and> grp_entries g' = {e \<in> grp_entries g. t \<le> entry_id e}"

lemma pos_count_sort_key [simp]: "pos_count (sort_key f gs) X = pos_count gs X"
proof -
  have "filter (\<lambda>g. has_pos g X) (sort_key f gs) = sort_key f (filter (\<lambda>g. has_pos g X) gs)"
    by (rule filter_sort)
  then show ?thesis by (simp add: pos_count_def)
qed

lemma matches_sort_key [simp]: "matches k (sort_key f gs) X = matches k gs X"
  by (simp add: matches_def)

lemma at_most_sort_key [simp]: "at_most k (sort_key f gs) = at_most k gs"
  by (simp add: at_most_def)

lemma pos_count_append [simp]: "pos_count (xs @ ys) X = pos_count xs X + pos_count ys X"
  by (simp add: pos_count_def)

lemma pos_count_le_length: "pos_count gs X \<le> length gs"
  by (simp add: pos_count_def)

lemma shrunk_skipTo: "grp_ok g \<Longrightarrow> shrunk t (PostingListGroup_skipTo t g) g"
  by (simp add: shrunk_def grp_skipTo_ok)

lemma shrunk_same:
  "grp_ok g \<Longrightarrow> (\<And>e. e \<in> grp_entries g \<Longrightarrow> t \<le> entry_id e) \<Longrightarrow> shrunk t g g"
  by (auto simp add: shrunk_def)

lemma shrunk_has_pos:
  assumes "shrunk t g' g"
  shows "has_pos g' X \<longleftrightarrow> has_pos g X \<and> t \<le> X"
  using assms by (auto simp add: shrunk_def has_pos_def)

lemma shrunk_has_neg:
  assumes "shrunk t g' g"
  shows "has_neg g' X \<longleftrightarrow> has_neg g X \<and> t \<le> X"
  using assms by (auto simp add: shrunk_def has_neg_def)

lemma shrunk_pos_count:
  assumes "list_all2 (shrunk t) gs' gs"
  shows "pos_count gs' X = (if t \<le> X then pos_count gs X else 0)"
  using assms
proof (induction gs' gs rule: list_all2_induct)
  case Nil
  then show ?case by (simp add: pos_count_def)
next
  case (Cons g' gs' g gs)
  then show ?case
    using shrunk_has_pos[OF Cons.hyps(1), of X] by (simp add: pos_count_def)
qed

lemma shrunk_no_neg:
  assumes "list_all2 (shrunk t) gs' gs"
  shows "(\<forall>g \<in> set gs'. \<not> has_neg g X) \<longleftrightarrow> (t \<le> X \<longrightarrow> (\<forall>g \<in> set gs. \<not> has_neg g X))"
  using assms
proof (induction gs' gs rule: list_all2_induct)
  case Nil
  then show ?case by simp
next
  case (Cons g' gs' g gs)
  then show ?case
    using shrunk_has_neg[OF Cons.hyps(1), of X] by auto
qed

lemma shrunk_matches:
  assumes "list_all2 (shrunk t) gs' gs" "0 < k"
  shows "matches k gs' X \<longleftrightarrow> matches k gs X \<and> t \<le> X"
  using shrunk_pos_count[OF assms(1), of X] shrunk_no_neg[OF assms(1), of X] assms(2)
  by (auto simp add: matches_def)

lemma shrunk_at_most:
  assumes "list_all2 (shrunk t) gs' gs" "at_most k gs"
  shows "at_most k gs'"
  using shrunk_pos_count[OF assms(1)] assms(2) by (simp add: at_most_def)

lemma shrunk_all_ok:
  assumes "list_all2 (shrunk t) gs' gs"
  shows "\<forall>g \<in> set gs'. grp_ok g"
  using assms by (induction gs' gs rule: list_all2_induct) (auto simp add: shrunk_def)

lemma sorted_current_le:
  assumes "sorted (map grp_current gs)" "i \<le> j" "j < length gs"
  shows "grp_current (gs ! i) \<le> grp_current (gs ! j)"
  using assms sorted_nth_mono[of "map grp_current gs" i j] by simp

lemma sorted_entry_ge:
  assumes "sorted (map grp_current gs)" "\<forall>g \<in> set gs. grp_ok g"
    and "i \<le> j" "j < length gs" "e \<in> grp_entries (gs ! j)"
  shows "grp_current (gs ! i) \<le> e"
proof -
  have "grp_current (gs ! j) \<le> e"
    using assms(2,4,5) by (intro grp_current_le) simp_all
  then show ?thesis
    using sorted_current_le[OF assms(1,3,4)] by simp
qed

lemma pigeon_filter:
  assumes "k \<le> length (filter P xs)" "0 < k"
  shows "\<exists>j. k - 1 \<le> j \<and> j < length xs \<and> P (xs ! j)"
proof -
  have "filter P xs = filter P (take (k - 1) xs) @ filter P (drop (k - 1) xs)"
    by (metis append_take_drop_id filter_append)
  moreover have "length (filter P (take (k - 1) xs)) \<le> k - 1"
    using length_filter_le[of P "take (k - 1) xs"] by simp
  ultimately have "filter P (drop (k - 1) xs) \<noteq> []"
    using assms by (cases "filter P (drop (k - 1) xs)") auto
  then obtain x where x: "x \<in> set (drop (k - 1) xs)" "P x"
    by (auto simp add: filter_empty_conv)
  then obtain i where "i < length (drop (k - 1) xs)" "drop (k - 1) xs ! i = x"
    by (auto simp add: in_set_conv_nth)
  then have "k - 1 \<le> k - 1 + i \<and> k - 1 + i < length xs \<and> P (xs ! (k - 1 + i))"
    using x(2) by auto
  then show ?thesis by blast
qed

lemma list_all2_shrunk_map_skipTo:
  assumes "\<forall>g \<in> set gs. grp_ok g"
  shows "list_all2 (shrunk t) (map (PostingListGroup_skipTo t) gs) gs"
  using assms by (induction gs) (simp_all add: shrunk_skipTo)

lemma list_all2_shrunk_same:
  assumes "\<forall>g \<in> set gs. grp_ok g \<and> (\<forall>e \<in> grp_entries g. t \<le> entry_id e)"
  shows "list_all2 (shrunk t) gs gs"
  using assms by (induction gs) (simp_all add: shrunk_same)

lemma veto_shrunk:
  assumes "sorted (map grp_current gs)" "\<forall>g \<in> set gs. grp_ok g"
    and "\<forall>g \<in> set gs. entry_id c \<le> entry_id (grp_current g)"
  shows "list_all2 (shrunk (entry_id c + 1)) (veto (entry_id c) gs) gs"
  using assms
proof (induction gs)
  case Nil
  then show ?case by simp
next
  case (Cons g gs)
  show ?case
  proof (cases "entry_id (grp_current g) = entry_id c")
    case True
    then show ?thesis
      using Cons by (simp add: PostingListGroup_current_def shrunk_skipTo)
  next
    case False
    then have lt: "entry_id c < entry_id (grp_current g)"
      using Cons.prems(3) by auto
    have "entry_id c + 1 \<le> entry_id e" if "h \<in> set (g # gs)" "e \<in> grp_entries h" for h e
    proof -
      have "grp_current g \<le> grp_current h"
        using Cons.prems(1) that(1) by auto
      moreover have "grp_current h \<le> e"
        using Cons.prems(2) that by (intro grp_current_le) auto
      ultimately have "entry_id (grp_current g) \<le> entry_id e"
        by (intro entry_id_mono) simp
      then show ?thesis
        using lt by (simp add: entry_id_Suc_le_iff)
    qed
    then have "list_all2 (shrunk (entry_id c + 1)) (g # gs) (g # gs)"
      using Cons.prems(2) by (intro list_all2_shrunk_same) blast
    then show ?thesis
      using False by (simp add: PostingListGroup_current_def)
  qed
qed

lemma first_k_pos:
  assumes srt: "sorted (map grp_current gs)" and ok: "\<forall>g \<in> set gs. grp_ok g"
    and k: "0 < k" "k \<le> length gs"
    and ne: "grp_current (gs ! (k - 1)) \<noteq> Entry_max"
    and eq: "entry_id (grp_current (gs ! 0)) = entry_id (grp_current (gs ! (k - 1)))"
    and pos: "\<not> isNegative (grp_current (gs ! 0))"
    and g: "g \<in> set (take k gs)"
  shows "has_pos g (entry_id (grp_current (gs ! 0)))"
proof -
  let ?c0 = "grp_current (gs ! 0)" and ?ck = "grp_current (gs ! (k - 1))"
  obtain i where i: "i < k" "i < length gs" "gs ! i = g"
    using g k by (auto simp add: in_set_conv_nth)
  have a: "?c0 \<le> grp_current g" and b: "grp_current g \<le> ?ck"
    using sorted_current_le[OF srt, of 0 i] sorted_current_le[OF srt, of i "k - 1"] i k
    by auto
  have id: "entry_id (grp_current g) = entry_id ?c0"
    using entry_id_mono[OF a] entry_id_mono[OF b] eq by simp
  have "\<not> isNegative (grp_current g)"
  proof
    assume "isNegative (grp_current g)"
    then have "grp_current g < ?c0"
      using same_id_neg_less_pos[OF id _ pos] by simp
    then show False using a by simp
  qed
  moreover have "grp_current g \<noteq> Entry_max"
    using b ne Entry_max_top[of ?ck] by auto
  then have "grp_current g \<in> grp_entries g"
    using ok i by (intro grp_current_in) auto
  ultimately show ?thesis using id by (auto simp add: has_pos_def)
qed

text \<open>One pass on sorted groups, as a shrinking of every group at one threshold.\<close>

lemma step_groups_shrunk:
  assumes srt: "sorted (map grp_current gs)" and ok: "\<forall>g \<in> set gs. grp_ok g"
    and am: "at_most k gs" and k: "0 < k" "k \<le> length gs"
    and ne: "grp_current (gs ! (k - 1)) \<noteq> Entry_max"
  shows "list_all2 (shrunk (step_next k gs)) (step_groups k gs) gs"
proof -
  let ?c0 = "grp_current (gs ! 0)" and ?ck = "grp_current (gs ! (k - 1))"
  let ?T = "step_next k gs"
  have le: "?c0 \<le> ?ck" using sorted_current_le[OF srt, of 0 "k - 1"] k by simp
  have c0: "?c0 \<noteq> Entry_max" using le ne Entry_max_top[of ?ck] by auto
  have ok_take: "\<forall>g \<in> set (take k gs). grp_ok g" and ok_drop: "\<forall>g \<in> set (drop k gs). grp_ok g"
    using ok by (auto dest: in_set_takeD in_set_dropD)
  have first: "list_all2 (shrunk ?T) (map (PostingListGroup_skipTo ?T) (take k gs)) (take k gs)"
    by (rule list_all2_shrunk_map_skipTo[OF ok_take])
  have drop_ge: "?ck \<le> grp_current g" if g: "g \<in> set (drop k gs)" for g
  proof -
    obtain i where i: "i < length (drop k gs)" "drop k gs ! i = g"
      using g by (auto simp add: in_set_conv_nth)
    then have "grp_current (gs ! (k - 1)) \<le> grp_current (gs ! (k + i))"
      using k by (intro sorted_current_le[OF srt]) auto
    then show ?thesis using i k by simp
  qed
  have drop_ent: "?ck \<le> e" if "g \<in> set (drop k gs)" "e \<in> grp_entries g" for g e
    using drop_ge[OF that(1)] grp_current_le[of g e] ok_drop that by auto
  have tail: "list_all2 (shrunk ?T)
      (if entry_id ?c0 = entry_id ?ck \<and> isNegative ?c0
       then veto (entry_id ?c0) (drop k gs) else drop k gs) (drop k gs)"
  proof (cases "entry_id ?c0 = entry_id ?ck")
    case False
    then have T: "?T = entry_id ?ck" by (simp add: step_next_def)
    have "list_all2 (shrunk (entry_id ?ck)) (drop k gs) (drop k gs)"
      using ok_drop drop_ent by (intro list_all2_shrunk_same) (auto intro: entry_id_mono)
    then show ?thesis using False T by simp
  next
    case eq: True
    then have T: "?T = entry_id ?c0 + 1" by (simp add: step_next_def)
    show ?thesis
    proof (cases "isNegative ?c0")
      case True
      have "sorted (map grp_current (drop k gs))"
        using srt by (simp add: sorted_wrt_drop drop_map[symmetric])
      moreover have "\<forall>g \<in> set (drop k gs). entry_id ?c0 \<le> entry_id (grp_current g)"
      proof
        fix g assume "g \<in> set (drop k gs)"
        then have "entry_id ?ck \<le> entry_id (grp_current g)"
          by (intro entry_id_mono drop_ge)
        then show "entry_id ?c0 \<le> entry_id (grp_current g)" using eq by simp
      qed
      ultimately have "list_all2 (shrunk (entry_id ?c0 + 1)) (veto (entry_id ?c0) (drop k gs)) (drop k gs)"
        using ok_drop by (intro veto_shrunk) 
      then show ?thesis using eq True T by simp
    next
      case False
      have all_pos: "has_pos g (entry_id ?c0)" if g: "g \<in> set (take k gs)" for g
        by (rule first_k_pos[OF srt ok k ne eq False g])
      have "entry_id ?c0 + 1 \<le> entry_id e" if g: "g \<in> set (drop k gs)" and e: "e \<in> grp_entries g"
        for g e
      proof -
        have ge: "?c0 \<le> e" using drop_ent[OF g e] le by simp
        have "entry_id e \<noteq> entry_id ?c0"
        proof
          assume id: "entry_id e = entry_id ?c0"
          have "\<not> isNegative e"
          proof
            assume "isNegative e"
            then have "e < ?c0" using same_id_neg_less_pos[OF id _ False] by simp
            then show False using ge by simp
          qed
          then have hp: "has_pos g (entry_id ?c0)" using e id by (auto simp add: has_pos_def)
          have "pos_count (take k gs) (entry_id ?c0) = length (take k gs)"
            using all_pos by (simp add: pos_count_def)
          moreover have "0 < pos_count (drop k gs) (entry_id ?c0)"
            using g hp by (auto simp add: pos_count_def filter_empty_conv)
          moreover have "pos_count gs (entry_id ?c0)
              = pos_count (take k gs) (entry_id ?c0) + pos_count (drop k gs) (entry_id ?c0)"
            using pos_count_append[of "take k gs" "drop k gs"] by simp
          ultimately have "k < pos_count gs (entry_id ?c0)"
            using k by simp
          then show False using am by (simp add: at_most_def not_less[symmetric])
        qed
        then have "entry_id ?c0 < entry_id e"
          using entry_id_mono[OF ge] by simp
        then show ?thesis by (simp add: entry_id_Suc_le_iff)
      qed
      then have "list_all2 (shrunk (entry_id ?c0 + 1)) (drop k gs) (drop k gs)"
        using ok_drop by (intro list_all2_shrunk_same) blast
      then show ?thesis using eq False T by simp
    qed
  qed
  have "list_all2 (shrunk ?T) (step_groups k gs) (take k gs @ drop k gs)"
    unfolding step_groups_def by (intro list_all2_appendI first tail)
  then show ?thesis by simp
qed

definition doc_of :: "EntryId \<Rightarrow> EntryId" where
  "doc_of X = drop_bit 16 X"

lemma matches_has_entry:
  assumes "matches k gs X" "0 < k"
  shows "\<exists>j e. k - 1 \<le> j \<and> j < length gs \<and> e \<in> grp_entries (gs ! j)
           \<and> entry_id e = X \<and> \<not> isNegative e"
proof -
  have "k \<le> length (filter (\<lambda>g. has_pos g X) gs)"
    using assms(1) by (simp add: matches_def pos_count_def)
  then obtain j where "k - 1 \<le> j" "j < length gs" "has_pos (gs ! j) X"
    using pigeon_filter[OF _ assms(2)] by blast
  then show ?thesis by (auto simp add: has_pos_def)
qed

lemma step_emitted:
  assumes srt: "sorted (map grp_current gs)" and ok: "\<forall>g \<in> set gs. grp_ok g"
    and k: "0 < k" "k \<le> length gs"
    and ne: "grp_current (gs ! (k - 1)) \<noteq> Entry_max"
  shows "doc_of ` {X. matches k gs X \<and> \<not> step_next k gs \<le> X}
       = (case step_emit k gs of None \<Rightarrow> {} | Some d \<Rightarrow> {d})"
proof -
  let ?c0 = "grp_current (gs ! 0)" and ?ck = "grp_current (gs ! (k - 1))"
  let ?T = "step_next k gs"
  have le: "?c0 \<le> ?ck" using sorted_current_le[OF srt, of 0 "k - 1"] k by simp
  have c0: "?c0 \<noteq> Entry_max" using le ne Entry_max_top[of ?ck] by auto
  have ge_k: "entry_id ?ck \<le> X" if m: "matches k gs X" for X
  proof -
    obtain j e where j: "k - 1 \<le> j" "j < length gs" "e \<in> grp_entries (gs ! j)" "entry_id e = X"
      using matches_has_entry[OF m k(1)] by blast
    have "?ck \<le> e" by (rule sorted_entry_ge[OF srt ok j(1,2,3)])
    then show ?thesis using entry_id_mono j(4) by blast
  qed
  show ?thesis
  proof (cases "entry_id ?c0 = entry_id ?ck")
    case False
    then have "?T = entry_id ?ck" by (simp add: step_next_def)
    then have "{X. matches k gs X \<and> \<not> ?T \<le> X} = {}" using ge_k by auto
    then show ?thesis using False by (simp add: step_emit_def)
  next
    case eq: True
    then have T: "?T = entry_id ?c0 + 1" by (simp add: step_next_def)
    have only: "X = entry_id ?c0" if "matches k gs X" "\<not> ?T \<le> X" for X
      using ge_k[OF that(1)] that(2) eq unfolding T entry_id_Suc_le_iff by simp
    have notT: "\<not> ?T \<le> entry_id ?c0"
      unfolding T entry_id_Suc_le_iff by simp
    have "0 < length gs" using k by linarith
    then have g0: "gs ! 0 \<in> set gs" by (rule nth_mem)
    then have c0in: "?c0 \<in> grp_entries (gs ! 0)"
      using ok c0 by (intro grp_current_in) auto
    show ?thesis
    proof (cases "isNegative ?c0")
      case True
      then have "has_neg (gs ! 0) (entry_id ?c0)"
        using c0in by (auto simp add: has_neg_def)
      then have "\<not> matches k gs (entry_id ?c0)"
        using g0 by (auto simp add: matches_def)
      then have "{X. matches k gs X \<and> \<not> ?T \<le> X} = {}" using only by blast
      then show ?thesis using eq True by (simp add: step_emit_def)
    next
      case False
      have "pos_count (take k gs) (entry_id ?c0) = length (take k gs)"
        using first_k_pos[OF srt ok k ne eq False] by (simp add: pos_count_def)
      moreover have "pos_count gs (entry_id ?c0)
          = pos_count (take k gs) (entry_id ?c0) + pos_count (drop k gs) (entry_id ?c0)"
        using pos_count_append[of "take k gs" "drop k gs"] by simp
      ultimately have cnt: "k \<le> pos_count gs (entry_id ?c0)" using k by simp
      have noneg: "\<not> has_neg g (entry_id ?c0)" if g: "g \<in> set gs" for g
      proof
        assume "has_neg g (entry_id ?c0)"
        then obtain e where e: "e \<in> grp_entries g" "entry_id e = entry_id ?c0" "isNegative e"
          by (auto simp add: has_neg_def)
        obtain j where j: "j < length gs" "gs ! j = g"
          using g by (auto simp add: in_set_conv_nth)
        have "?c0 \<le> e"
          using sorted_entry_ge[OF srt ok _ j(1), of 0 e] e(1) j(2) by simp
        moreover have "e < ?c0" by (rule same_id_neg_less_pos[OF e(2,3) False])
        ultimately show False by simp
      qed
      have "matches k gs (entry_id ?c0)"
        using cnt noneg by (simp add: matches_def)
      then have "{X. matches k gs X \<and> \<not> ?T \<le> X} = {entry_id ?c0}"
        using only notT by blast
      then show ?thesis
        using eq False by (simp add: step_emit_def doc_of_def documentId_entry_id)
    qed
  qed
qed

theorem merge_loop_matches:
  fixes res :: ResultSet
  assumes "\<forall>g \<in> set gs. grp_ok g" "at_most k gs" "0 < k"
  shows "result_ids (merge_loop k gs res) = result_ids res \<union> doc_of ` {X. matches k gs X}"
  using assms
proof (induction k gs res rule: merge_loop.induct)
  case (1 k plists res)
  let ?s = "sort_key PostingListGroup_current plists"
  have srt: "sorted (map grp_current ?s)"
    using sorted_sort_key[of PostingListGroup_current plists]
    by (simp add: PostingListGroup_current_def[abs_def])
  have ok: "\<forall>g \<in> set ?s. grp_ok g" using "1.prems"(1) by simp
  have am: "at_most k ?s" using "1.prems"(2) by simp
  show ?case
  proof (cases "loop_done k plists")
    case True
    have "\<not> matches k ?s X" for X
    proof
      assume m: "matches k ?s X"
      then have len: "k \<le> length ?s"
        using pos_count_le_length[of ?s X] by (simp add: matches_def)
      then have mx: "grp_current (?s ! (k - 1)) = Entry_max"
        using True "1.prems"(3) by (auto simp add: loop_done_def)
      obtain j e where j: "k - 1 \<le> j" "j < length ?s" "e \<in> grp_entries (?s ! j)"
        using matches_has_entry[OF m "1.prems"(3)] by blast
      have "grp_current (?s ! (k - 1)) \<le> e" by (rule sorted_entry_ge[OF srt ok j])
      then have "e = Entry_max" using mx Entry_max_top[of e] by simp
      moreover have "grp_ok (?s ! j)" using ok nth_mem[OF j(2)] by blast
      ultimately show False using j(3) by (simp add: grp_ok_def)
    qed
    then have "{X. matches k plists X} = {}" by simp
    then show ?thesis using True by (simp add: merge_loop_done)
  next
    case False
    then have k: "0 < k" "k \<le> length ?s" by (auto simp add: loop_done_def)
    have ne: "grp_current (?s ! (k - 1)) \<noteq> Entry_max"
      using False by (simp add: loop_done_def)
    have ne': "\<not> PostingListGroup_empty (?s ! (k - 1))"
      using ne by (simp add: PostingListGroup_empty_def)
    have c1: "\<not> (k = 0 \<or> length ?s < k)" using k by simp
    let ?g' = "step_groups k ?s" and ?r' = "emit (step_emit k ?s) res"
    have sh: "list_all2 (shrunk (step_next k ?s)) ?g' ?s"
      by (rule step_groups_shrunk[OF srt ok am k ne])
    have eqn: "(?g', ?r') = merge_step k ?s res"
      by (simp add: merge_step_eq[OF k] emit_def)
    have ih: "result_ids (merge_loop k ?g' ?r') = result_ids ?r' \<union> doc_of ` {X. matches k ?g' X}"
      by (rule "1.IH"[OF refl c1 ne' eqn shrunk_all_ok[OF sh] shrunk_at_most[OF sh am] k(1)])
    have split: "{X. matches k plists X}
        = {X. matches k ?s X \<and> \<not> step_next k ?s \<le> X} \<union> {X. matches k ?g' X}"
      using shrunk_matches[OF sh k(1)] by auto
    have "result_ids (merge_loop k plists res)
        = result_ids res \<union> (case step_emit k ?s of None \<Rightarrow> {} | Some d \<Rightarrow> {d})
          \<union> doc_of ` {X. matches k ?g' X}"
      unfolding merge_loop_step[OF False] ih result_ids_emit ..
    then show ?thesis
      unfolding split image_Un step_emitted[OF srt ok k ne, symmetric] by auto
  qed
qed

section \<open>What build stores and what a trigger collects\<close>

subsection \<open>Values and lookups\<close>

definition vals_list :: "Values \<Rightarrow> (string + 64 word) list" where
  "vals_list v = (case v of Strings xs \<Rightarrow> map Inl xs | Ints xs \<Rightarrow> map Inr xs)"

definition vals_set :: "Values \<Rightarrow> (string + 64 word) set" where
  "vals_set v = (case v of Strings xs \<Rightarrow> Inl ` set xs | Ints xs \<Rightarrow> Inr ` set xs)"

lemma set_vals_list [simp]: "set (vals_list v) = vals_set v"
  by (cases v) (simp_all add: vals_list_def vals_set_def)

definition Impl_lookup :: "('k, 't) InvertedIndexImpl \<Rightarrow> 'k \<Rightarrow> 't \<Rightarrow> Entry list" where
  "Impl_lookup m k v =
     (case m k of None \<Rightarrow> [] | Some t \<Rightarrow> (case t v of None \<Rightarrow> [] | Some es \<Rightarrow> es))"

definition lookup :: "'k InvertedIndex \<Rightarrow> 'k \<Rightarrow> string + 64 word \<Rightarrow> Entry list" where
  "lookup ix k v =
     (case v of Inl x \<Rightarrow> Impl_lookup (stringIndex ix) k x
              | Inr w \<Rightarrow> Impl_lookup (intIndex ix) k w)"

lemma Impl_lookup_empty [simp]: "Impl_lookup Map.empty k v = []"
  by (simp add: Impl_lookup_def)

lemma lookup_new [simp]: "lookup InvertedIndex_new k v = []"
  by (cases v) (simp_all add: lookup_def InvertedIndex_new_def)

lemma fold_push_set:
  "set (case foldl (\<lambda>t v. t(v \<mapsto> (case t v of None \<Rightarrow> [] | Some es \<Rightarrow> es) @ [e])) t vs v'
          of None \<Rightarrow> [] | Some es \<Rightarrow> es)
   = set (case t v' of None \<Rightarrow> [] | Some es \<Rightarrow> es) \<union> (if v' \<in> set vs then {e} else {})"
  by (induction vs arbitrary: t) (auto split: option.splits if_splits)

lemma Impl_lookup_addEntry:
  "set (Impl_lookup (Impl_addEntry e k vs m) k' v')
   = set (Impl_lookup m k' v') \<union> (if k' = k \<and> v' \<in> set vs then {e} else {})"
proof (cases "k' = k")
  case True
  show ?thesis
    using fold_push_set[of e "case m k of None \<Rightarrow> Map.empty | Some t \<Rightarrow> t" vs v']
    by (simp add: Impl_lookup_def Impl_addEntry_def True split: option.splits)
next
  case False
  then show ?thesis by (simp add: Impl_lookup_def Impl_addEntry_def)
qed

lemma lookup_addEntry:
  "set (lookup (InvertedIndex_addEntry e k vals ix) k' v')
   = set (lookup ix k' v') \<union> (if k' = k \<and> v' \<in> vals_set vals then {e} else {})"
  by (cases vals; cases v')
     (auto simp add: lookup_def InvertedIndex_addEntry_def Impl_lookup_addEntry vals_set_def)

lemma Impl_lookup_build: "Impl_lookup (Impl_build m) k v = sort (Impl_lookup m k v)"
  by (simp add: Impl_lookup_def Impl_build_def split: option.splits)

lemma lookup_build: "lookup (InvertedIndex_build ix) k v = sort (lookup ix k v)"
  by (cases v) (simp_all add: lookup_def InvertedIndex_build_def Impl_lookup_build)

lemma InvertedIndex_build_new [simp]: "InvertedIndex_build InvertedIndex_new = InvertedIndex_new"
  by (simp add: InvertedIndex_build_def InvertedIndex_new_def Impl_build_def)

subsection \<open>The group a trigger builds\<close>

lemma add_empty_list [simp]: "PostingListGroup_add (PostingList_new []) g = g"
  by (simp add: PostingListGroup_add_def PostingList_new_def PostingList_empty_def)

lemma Impl_trigger_eq:
  "Impl_trigger grp k vs m =
     foldl (\<lambda>g v. PostingListGroup_add (PostingList_new (Impl_lookup m k v)) g) grp vs"
proof (cases "m k")
  case None
  have "foldl (\<lambda>g v. PostingListGroup_add (PostingList_new []) g) grp vs = grp"
    by (induction vs) simp_all
  then show ?thesis using None by (simp add: Impl_trigger_def Impl_lookup_def)
next
  case (Some t)
  have "(\<lambda>g v. case t v of None \<Rightarrow> g | Some es \<Rightarrow> PostingListGroup_add (PostingList_new es) g)
      = (\<lambda>g v. PostingListGroup_add (PostingList_new (case t v of None \<Rightarrow> [] | Some es \<Rightarrow> es)) g)"
    by (intro ext) (simp split: option.splits)
  then show ?thesis using Some by (simp add: Impl_trigger_def Impl_lookup_def)
qed

lemma InvertedIndex_trigger_eq:
  "InvertedIndex_trigger grp k vals ix =
     foldl (\<lambda>g v. PostingListGroup_add (PostingList_new (lookup ix k v)) g) grp (vals_list vals)"
  by (cases vals)
     (simp_all add: InvertedIndex_trigger_def Impl_trigger_eq vals_list_def lookup_def
        foldl_map)

lemma members_min_snoc:
  "members_min m (ps @ [p]) =
     (if PostingList_empty p then members_min m ps
      else min (members_min m ps) (PostingList_current p))"
  by (simp add: members_min_def)

lemma grp_ok_new [simp]: "grp_ok PostingListGroup_new"
  by (simp add: grp_ok_def PostingListGroup_new_def grp_entries_def)

lemma grp_entries_new [simp]: "grp_entries PostingListGroup_new = {}"
  by (simp add: PostingListGroup_new_def grp_entries_def)

lemma grp_add:
  assumes "grp_ok g" "sorted es" "Entry_max \<notin> set es"
  shows "grp_ok (PostingListGroup_add (PostingList_new es) g)"
    and "grp_entries (PostingListGroup_add (PostingList_new es) g) = grp_entries g \<union> set es"
  using assms
  by (auto simp add: PostingListGroup_add_def PostingList_new_def PostingList_empty_def
        grp_ok_def grp_entries_def members_min_snoc PostingList_current_def)

lemma grp_fold_add:
  assumes "grp_ok g" "\<forall>v \<in> set vs. sorted (f v) \<and> Entry_max \<notin> set (f v)"
  shows "grp_ok (foldl (\<lambda>g v. PostingListGroup_add (PostingList_new (f v)) g) g vs)
       \<and> grp_entries (foldl (\<lambda>g v. PostingListGroup_add (PostingList_new (f v)) g) g vs)
           = grp_entries g \<union> (\<Union>v \<in> set vs. set (f v))"
  using assms
proof (induction vs arbitrary: g)
  case Nil
  then show ?case by simp
next
  case (Cons v vs)
  have ok: "grp_ok (PostingListGroup_add (PostingList_new (f v)) g)"
    and en: "grp_entries (PostingListGroup_add (PostingList_new (f v)) g) = grp_entries g \<union> set (f v)"
    using Cons.prems by (simp_all add: grp_add)
  show ?case
    using Cons.IH[OF ok] Cons.prems(2) en by auto
qed

lemma foldl_collect:
  "foldl (\<lambda>res x. if P (f x) then res @ [f x] else res) acc xs = acc @ filter P (map f xs)"
  by (induction xs arbitrary: acc) simp_all

subsection \<open>What build puts into the index\<close>

definition level :: "'k InvertedIndex list \<Rightarrow> nat \<Rightarrow> 'k InvertedIndex" where
  "level ixs n = (if n < length ixs then ixs ! n else InvertedIndex_new)"

definition expr_entries ::
  "EntryId \<Rightarrow> EntryId \<Rightarrow> 'k Expression list \<Rightarrow> 'k \<Rightarrow> string + 64 word \<Rightarrow> Entry set" where
  "expr_entries i j es k v =
     {Entry i j (positive e) | e. e \<in> set es \<and> key e = k \<and> v \<in> vals_set (exvalues e)}"

lemma expr_entries_Nil [simp]: "expr_entries i j [] k v = {}"
  by (simp add: expr_entries_def)

lemma expr_entries_Cons:
  "expr_entries i j (e # es) k v =
     (if key e = k \<and> v \<in> vals_set (exvalues e) then {Entry i j (positive e)} else {})
     \<union> expr_entries i j es k v"
  by (auto simp add: expr_entries_def)

lemma level_resize:
  "length ixs \<le> n \<Longrightarrow> level (resize ixs n InvertedIndex_new) m = level ixs m"
  by (auto simp add: level_def resize_def nth_append)

lemma level_update:
  "sz < length ixs \<Longrightarrow> level (ixs[sz := x]) m = (if m = sz then x else level ixs m)"
  by (auto simp add: level_def)

definition add_expr ::
  "EntryId \<Rightarrow> EntryId \<Rightarrow> nat \<Rightarrow> 'k Expression \<Rightarrow> 'k InvertedIndex list \<Rightarrow> 'k InvertedIndex list" where
  "add_expr i j sz e ixs =
     (let ixs1 = (if length ixs < sz + 1 then resize ixs (sz + 1) InvertedIndex_new else ixs)
      in ixs1[sz := InvertedIndex_addEntry (Entry i j (positive e)) (key e) (exvalues e)
                      (ixs1 ! sz)])"

lemma build_expressions_Cons:
  "build_expressions i j sz (e # es) ixs = build_expressions i j sz es (add_expr i j sz e ixs)"
  by (simp add: add_expr_def Let_def)

lemma length_add_expr: "length (add_expr i j sz e ixs) = max (length ixs) (Suc sz)"
  by (simp add: add_expr_def Let_def resize_def)

lemma level_add_expr:
  "level (add_expr i j sz e ixs) m =
     (if m = sz
      then InvertedIndex_addEntry (Entry i j (positive e)) (key e) (exvalues e) (level ixs sz)
      else level ixs m)"
proof -
  let ?ixs1 = "if length ixs < sz + 1 then resize ixs (sz + 1) InvertedIndex_new else ixs"
  have len: "sz < length ?ixs1" by (simp add: resize_def)
  have l1: "level ?ixs1 m = level ixs m" for m
    by (simp add: level_resize)
  have "?ixs1 ! sz = level ?ixs1 sz" using len by (simp only: level_def if_True)
  then have nth: "?ixs1 ! sz = level ixs sz" by (simp only: l1)
  show ?thesis
    unfolding add_expr_def Let_def level_update[OF len] nth l1 ..
qed

lemma build_expressions_lookup:
  "set (lookup (level (build_expressions i j sz es ixs) n) k v)
   = set (lookup (level ixs n) k v) \<union> (if n = sz then expr_entries i j es k v else {})"
proof (induction es arbitrary: ixs)
  case Nil
  then show ?case by simp
next
  case (Cons e es)
  show ?case
    unfolding build_expressions_Cons Cons.IH level_add_expr
    by (auto simp add: lookup_addEntry expr_entries_Cons)
qed

lemma build_expressions_length:
  "length (build_expressions i j sz es ixs)
   = (if es = [] then length ixs else max (length ixs) (Suc sz))"
proof (induction es arbitrary: ixs)
  case Nil
  then show ?case by simp
next
  case (Cons e es)
  show ?case
    unfolding build_expressions_Cons Cons.IH length_add_expr by simp
qed

definition conj_entries ::
  "EntryId \<Rightarrow> EntryId \<Rightarrow> 'k Conjunction \<Rightarrow> nat \<Rightarrow> 'k \<Rightarrow> string + 64 word \<Rightarrow> Entry set" where
  "conj_entries i j c n k v =
     (if getConjunctionSize c = n then expr_entries i j (expressions c) k v else {})"

fun iunion :: "nat \<Rightarrow> 'a list \<Rightarrow> (nat \<Rightarrow> 'a \<Rightarrow> 'b set) \<Rightarrow> 'b set" where
  "iunion j [] f = {}"
| "iunion j (x # xs) f = f j x \<union> iunion (Suc j) xs f"

lemma iunion_iff: "y \<in> iunion j xs f \<longleftrightarrow> (\<exists>m < length xs. y \<in> f (j + m) (xs ! m))"
proof (induction xs arbitrary: j)
  case Nil
  then show ?case by simp
next
  case (Cons x xs)
  have "(\<exists>m < length (x # xs). y \<in> f (j + m) ((x # xs) ! m))
      \<longleftrightarrow> y \<in> f j x \<or> (\<exists>m < length xs. y \<in> f (Suc j + m) (xs ! m))"
    (is "?L \<longleftrightarrow> ?A \<or> ?B")
  proof
    assume ?L
    then obtain m where m: "m < length (x # xs)" "y \<in> f (j + m) ((x # xs) ! m)" by blast
    show "?A \<or> ?B"
    proof (cases m)
      case 0
      then show ?thesis using m by simp
    next
      case (Suc m')
      then have "m' < length xs \<and> y \<in> f (Suc j + m') (xs ! m')" using m by simp
      then show ?thesis by blast
    qed
  next
    assume "?A \<or> ?B"
    then show ?L
    proof
      assume ?A
      then have "0 < length (x # xs) \<and> y \<in> f (j + 0) ((x # xs) ! 0)" by simp
      then show ?L by blast
    next
      assume ?B
      then obtain m where "Suc m < length (x # xs) \<and> y \<in> f (j + Suc m) ((x # xs) ! Suc m)"
        by auto
      then show ?L by blast
    qed
  qed
  then show ?case by (simp only: iunion.simps Un_iff Cons.IH)
qed

definition conjs_entries ::
  "EntryId \<Rightarrow> nat \<Rightarrow> 'k Conjunction list \<Rightarrow> nat \<Rightarrow> 'k \<Rightarrow> string + 64 word \<Rightarrow> Entry set" where
  "conjs_entries i j cs n k v = iunion j cs (\<lambda>j c. conj_entries i (word_of_nat j) c n k v)"

definition conjs_zero :: "EntryId \<Rightarrow> nat \<Rightarrow> 'k Conjunction list \<Rightarrow> Entry set" where
  "conjs_zero i j cs =
     iunion j cs (\<lambda>j c. if getConjunctionSize c = 0 then {Entry i (word_of_nat j) True} else {})"

lemma conjs_entries_simps [simp]:
  "conjs_entries i j [] n k v = {}"
  "conjs_entries i j (c # cs) n k v =
     conj_entries i (word_of_nat j) c n k v \<union> conjs_entries i (Suc j) cs n k v"
  by (simp_all add: conjs_entries_def)

lemma conjs_zero_simps [simp]:
  "conjs_zero i j [] = {}"
  "conjs_zero i j (c # cs) =
     (if getConjunctionSize c = 0 then {Entry i (word_of_nat j) True} else {})
     \<union> conjs_zero i (Suc j) cs"
  by (simp_all add: conjs_zero_def)

definition add_conj :: "EntryId \<Rightarrow> nat \<Rightarrow> 'k Conjunction \<Rightarrow> 'k Indexer \<Rightarrow> 'k Indexer" where
  "add_conj i j c idx =
     \<lparr>indexs = build_expressions i (word_of_nat j) (getConjunctionSize c) (expressions c)
                 (indexs idx),
      zlist = (if getConjunctionSize c = 0 then zlist idx @ [Entry i (word_of_nat j) True]
               else zlist idx)\<rparr>"

lemma build_conjunctions_Cons:
  "build_conjunctions i j (c # cs) idx = build_conjunctions i (Suc j) cs (add_conj i j c idx)"
  by (simp add: add_conj_def Let_def)

lemma indexs_add_conj:
  "indexs (add_conj i j c idx)
   = build_expressions i (word_of_nat j) (getConjunctionSize c) (expressions c) (indexs idx)"
  by (simp add: add_conj_def)

lemma zlist_add_conj:
  "set (zlist (add_conj i j c idx))
   = set (zlist idx) \<union> (if getConjunctionSize c = 0 then {Entry i (word_of_nat j) True} else {})"
  by (simp add: add_conj_def)

lemma build_conjunctions_lookup:
  "set (lookup (level (indexs (build_conjunctions i j cs idx)) n) k v)
   = set (lookup (level (indexs idx) n) k v) \<union> conjs_entries i j cs n k v"
proof (induction cs arbitrary: j idx)
  case Nil
  then show ?case by simp
next
  case (Cons c cs)
  show ?case
    unfolding build_conjunctions_Cons Cons.IH indexs_add_conj build_expressions_lookup
    by (simp add: conj_entries_def Un_assoc)
qed

lemma build_conjunctions_zlist:
  "set (zlist (build_conjunctions i j cs idx)) = set (zlist idx) \<union> conjs_zero i j cs"
proof (induction cs arbitrary: j idx)
  case Nil
  then show ?case by simp
next
  case (Cons c cs)
  show ?case
    unfolding build_conjunctions_Cons Cons.IH zlist_add_conj
    by (simp add: Un_assoc)
qed

lemma build_conjunctions_length_ge:
  "length (indexs idx) \<le> length (indexs (build_conjunctions i j cs idx))"
proof (induction cs arbitrary: j idx)
  case Nil
  then show ?case by simp
next
  case (Cons c cs)
  have "length (indexs idx) \<le> length (indexs (add_conj i j c idx))"
    by (simp add: indexs_add_conj build_expressions_length)
  then show ?case
    unfolding build_conjunctions_Cons
    using Cons.IH[of "add_conj i j c idx" "Suc j"] by (rule le_trans)
qed

lemma build_conjunctions_length_covers:
  assumes "c \<in> set cs" "expressions c \<noteq> []"
  shows "getConjunctionSize c < length (indexs (build_conjunctions i j cs idx))"
  using assms
proof (induction cs arbitrary: j idx)
  case Nil
  then show ?case by simp
next
  case (Cons c' cs)
  show ?case
  proof (cases "c = c'")
    case True
    have "getConjunctionSize c < length (indexs (add_conj i j c' idx))"
      using Cons.prems(2) True by (simp add: indexs_add_conj build_expressions_length)
    then show ?thesis
      unfolding build_conjunctions_Cons
      using build_conjunctions_length_ge[of "add_conj i j c' idx" i "Suc j" cs] by simp
  next
    case False
    then show ?thesis unfolding build_conjunctions_Cons using Cons by simp
  qed
qed

lemma build_conjunctions_length_bound:
  assumes "\<forall>c \<in> set cs. getConjunctionSize c < B" "length (indexs idx) \<le> B"
  shows "length (indexs (build_conjunctions i j cs idx)) \<le> B"
  using assms
proof (induction cs arbitrary: j idx)
  case Nil
  then show ?case by simp
next
  case (Cons c cs)
  have "length (indexs (add_conj i j c idx)) \<le> B"
    using Cons.prems by (simp add: indexs_add_conj build_expressions_length)
  then show ?case
    unfolding build_conjunctions_Cons using Cons.prems(1) by (intro Cons.IH) simp_all
qed

definition docs_entries ::
  "nat \<Rightarrow> 'k Document list \<Rightarrow> nat \<Rightarrow> 'k \<Rightarrow> string + 64 word \<Rightarrow> Entry set" where
  "docs_entries i ds n k v =
     iunion i ds (\<lambda>i d. conjs_entries (word_of_nat i) 0 (conjunctions d) n k v)"

definition docs_zero :: "nat \<Rightarrow> 'k Document list \<Rightarrow> Entry set" where
  "docs_zero i ds = iunion i ds (\<lambda>i d. conjs_zero (word_of_nat i) 0 (conjunctions d))"

lemma docs_entries_simps [simp]:
  "docs_entries i [] n k v = {}"
  "docs_entries i (d # ds) n k v =
     conjs_entries (word_of_nat i) 0 (conjunctions d) n k v \<union> docs_entries (Suc i) ds n k v"
  by (simp_all add: docs_entries_def)

lemma docs_zero_simps [simp]:
  "docs_zero i [] = {}"
  "docs_zero i (d # ds) = conjs_zero (word_of_nat i) 0 (conjunctions d) \<union> docs_zero (Suc i) ds"
  by (simp_all add: docs_zero_def)

lemma build_documents_Cons:
  "build_documents i (d # ds) idx
   = build_documents (Suc i) ds (build_conjunctions (word_of_nat i) 0 (conjunctions d) idx)"
  by (cases "conjunctions d") simp_all

lemma build_documents_lookup:
  "set (lookup (level (indexs (build_documents i ds idx)) n) k v)
   = set (lookup (level (indexs idx) n) k v) \<union> docs_entries i ds n k v"
proof (induction ds arbitrary: i idx)
  case Nil
  then show ?case by simp
next
  case (Cons d ds)
  show ?case
    unfolding build_documents_Cons Cons.IH build_conjunctions_lookup
    by (simp add: Un_assoc)
qed

lemma build_documents_zlist:
  "set (zlist (build_documents i ds idx)) = set (zlist idx) \<union> docs_zero i ds"
proof (induction ds arbitrary: i idx)
  case Nil
  then show ?case by simp
next
  case (Cons d ds)
  show ?case
    unfolding build_documents_Cons Cons.IH build_conjunctions_zlist
    by (simp add: Un_assoc)
qed

lemma build_documents_length_ge:
  "length (indexs idx) \<le> length (indexs (build_documents i ds idx))"
proof (induction ds arbitrary: i idx)
  case Nil
  then show ?case by simp
next
  case (Cons d ds)
  show ?case
    unfolding build_documents_Cons
    using Cons.IH[of "build_conjunctions (word_of_nat i) 0 (conjunctions d) idx" "Suc i"]
      build_conjunctions_length_ge[of idx "word_of_nat i" 0 "conjunctions d"]
    by (rule le_trans[rotated])
qed

lemma build_documents_length_covers:
  assumes "d \<in> set ds" "c \<in> set (conjunctions d)" "expressions c \<noteq> []"
  shows "getConjunctionSize c < length (indexs (build_documents i ds idx))"
  using assms(1)
proof (induction ds arbitrary: i idx)
  case Nil
  then show ?case by simp
next
  case (Cons d' ds)
  show ?case
  proof (cases "d = d'")
    case True
    have "getConjunctionSize c
        < length (indexs (build_conjunctions (word_of_nat i) 0 (conjunctions d') idx))"
      using assms(2,3) True by (intro build_conjunctions_length_covers) simp_all
    then show ?thesis
      unfolding build_documents_Cons
      using build_documents_length_ge[of
          "build_conjunctions (word_of_nat i) 0 (conjunctions d') idx" "Suc i" ds]
      by simp
  next
    case False
    then show ?thesis unfolding build_documents_Cons using Cons by simp
  qed
qed

lemma build_documents_length_bound:
  assumes "\<forall>d \<in> set ds. \<forall>c \<in> set (conjunctions d). getConjunctionSize c < B"
    and "length (indexs idx) \<le> B"
  shows "length (indexs (build_documents i ds idx)) \<le> B"
  using assms
proof (induction ds arbitrary: i idx)
  case Nil
  then show ?case by simp
next
  case (Cons d ds)
  have "length (indexs (build_conjunctions (word_of_nat i) 0 (conjunctions d) idx)) \<le> B"
    using Cons.prems by (intro build_conjunctions_length_bound) simp_all
  then show ?case
    unfolding build_documents_Cons using Cons.prems(1) by (intro Cons.IH) simp_all
qed

subsection \<open>The postings by position\<close>

definition conj_at :: "'k Document list \<Rightarrow> nat \<Rightarrow> nat \<Rightarrow> 'k Conjunction" where
  "conj_at docs d m = conjunctions (docs ! d) ! m"

definition is_conj :: "'k Document list \<Rightarrow> nat \<Rightarrow> nat \<Rightarrow> bool" where
  "is_conj docs d m \<longleftrightarrow> d < length docs \<and> m < length (conjunctions (docs ! d))"

lemma conjs_entries_iff:
  "x \<in> conjs_entries i 0 cs n k v \<longleftrightarrow>
     (\<exists>m < length cs. getConjunctionSize (cs ! m) = n
        \<and> (\<exists>e \<in> set (expressions (cs ! m)). key e = k \<and> v \<in> vals_set (exvalues e)
              \<and> x = Entry i (word_of_nat m) (positive e)))"
proof -
  have a: "x \<in> conj_entries i j c n k v \<longleftrightarrow>
      getConjunctionSize c = n
        \<and> (\<exists>e \<in> set (expressions c). key e = k \<and> v \<in> vals_set (exvalues e)
              \<and> x = Entry i j (positive e))" for j c
    by (auto simp add: conj_entries_def expr_entries_def)
  show ?thesis
    by (simp only: conjs_entries_def iunion_iff add_0 a)
qed

lemma conjs_zero_iff:
  "x \<in> conjs_zero i 0 cs \<longleftrightarrow>
     (\<exists>m < length cs. getConjunctionSize (cs ! m) = 0 \<and> x = Entry i (word_of_nat m) True)"
proof -
  have a: "x \<in> (if getConjunctionSize c = 0 then {Entry i j True} else {}) \<longleftrightarrow>
      getConjunctionSize c = 0 \<and> x = Entry i j True" for j c
    by simp
  show ?thesis
    by (simp only: conjs_zero_def iunion_iff add_0 a)
qed

lemma docs_entries_iff:
  "x \<in> docs_entries 0 docs n k v \<longleftrightarrow>
     (\<exists>d m. is_conj docs d m \<and> getConjunctionSize (conj_at docs d m) = n
        \<and> (\<exists>e \<in> set (expressions (conj_at docs d m)). key e = k \<and> v \<in> vals_set (exvalues e)
              \<and> x = Entry (word_of_nat d) (word_of_nat m) (positive e)))"
  unfolding docs_entries_def iunion_iff conjs_entries_iff is_conj_def conj_at_def add_0
  by (simp only: Bex_def conj_assoc ex_simps)

lemma docs_zero_iff:
  "x \<in> docs_zero 0 docs \<longleftrightarrow>
     (\<exists>d m. is_conj docs d m \<and> getConjunctionSize (conj_at docs d m) = 0
        \<and> x = Entry (word_of_nat d) (word_of_nat m) True)"
  unfolding docs_zero_def iunion_iff conjs_zero_iff is_conj_def conj_at_def add_0
  by (simp only: Bex_def conj_assoc ex_simps)

subsection \<open>The built index\<close>

lemma level_map_build: "level (map InvertedIndex_build ixs) n = InvertedIndex_build (level ixs n)"
  by (simp add: level_def)

lemma length_indexs_create:
  "length (indexs (create docs))
   = length (indexs (build_documents 0 docs \<lparr>indexs = [], zlist = []\<rparr>))"
  by (simp add: create_def build_def Let_def)

lemma create_lookup:
  assumes "n < length (indexs (create docs))"
  shows "set (lookup (indexs (create docs) ! n) k v) = docs_entries 0 docs n k v"
    and "sorted (lookup (indexs (create docs) ! n) k v)"
proof -
  let ?idx0 = "build_documents 0 docs \<lparr>indexs = [], zlist = []\<rparr>"
  have "indexs (create docs) ! n = level (indexs (create docs)) n"
    using assms by (simp add: level_def)
  also have "\<dots> = InvertedIndex_build (level (indexs ?idx0) n)"
    by (simp add: create_def build_def Let_def level_map_build)
  finally have eq: "lookup (indexs (create docs) ! n) k v = sort (lookup (level (indexs ?idx0) n) k v)"
    by (simp add: lookup_build)
  show "sorted (lookup (indexs (create docs) ! n) k v)"
    unfolding eq by simp
  have "set (lookup (level (indexs ?idx0) n) k v) = docs_entries 0 docs n k v"
    unfolding build_documents_lookup by (simp add: level_def)
  then show "set (lookup (indexs (create docs) ! n) k v) = docs_entries 0 docs n k v"
    unfolding eq by simp
qed

lemma create_zlist:
  "set (zlist (create docs)) = docs_zero 0 docs" "sorted (zlist (create docs))"
  by (simp_all add: create_def build_def Let_def build_documents_zlist)

lemma create_length_covers:
  assumes "is_conj docs d m" "expressions (conj_at docs d m) \<noteq> []"
  shows "getConjunctionSize (conj_at docs d m) < length (indexs (create docs))"
proof -
  have "docs ! d \<in> set docs" "conj_at docs d m \<in> set (conjunctions (docs ! d))"
    using assms(1) by (simp_all add: is_conj_def conj_at_def)
  then show ?thesis
    unfolding length_indexs_create using assms(2) by (rule build_documents_length_covers)
qed

lemma create_length_bound:
  assumes "\<forall>d \<in> set docs. \<forall>c \<in> set (conjunctions d). getConjunctionSize c < B"
  shows "length (indexs (create docs)) \<le> B"
  unfolding length_indexs_create
  using assms by (intro build_documents_length_bound) simp_all

subsection \<open>Ids of conjunctions\<close>

definition cid :: "nat \<Rightarrow> nat \<Rightarrow> EntryId" where
  "cid d m = entry_id (Entry (word_of_nat d) (word_of_nat m) True)"

definition in_bounds :: "nat \<Rightarrow> nat \<Rightarrow> bool" where
  "in_bounds d m \<longleftrightarrow> d < 2^47 - 1 \<and> m < 2^16"

lemma unat_word_of_nat: "n < 2 ^ 64 \<Longrightarrow> unat (word_of_nat n :: 64 word) = n"
  by (simp add: unat_of_nat)

lemma word_of_nat_inj:
  assumes "a < 2 ^ 64" "b < 2 ^ 64" "(word_of_nat a :: 64 word) = word_of_nat b"
  shows "a = b"
proof -
  have "unat (word_of_nat a :: 64 word) = unat (word_of_nat b :: 64 word)"
    by (simp only: assms(3))
  then show ?thesis
    by (simp only: unat_word_of_nat[OF assms(1)] unat_word_of_nat[OF assms(2)])
qed

lemma in_bounds_words:
  assumes "in_bounds d m"
  shows "(word_of_nat d :: 64 word) < 2^47" "(word_of_nat m :: 64 word) < 2^16"
proof -
  have "d < 2^64" "m < 2^64" using assms by (simp_all add: in_bounds_def)
  then have "unat (word_of_nat d :: 64 word) = d" "unat (word_of_nat m :: 64 word) = m"
    by (simp_all add: unat_word_of_nat)
  then show "(word_of_nat d :: 64 word) < 2^47" "(word_of_nat m :: 64 word) < 2^16"
    using assms by (simp_all add: word_less_nat_alt in_bounds_def)
qed

lemma entry_id_Entry_cid: "entry_id (Entry (word_of_nat d) (word_of_nat m) p) = cid d m"
  unfolding cid_def by (rule entry_id_Entry_polarity)

lemma cid_inj:
  assumes "in_bounds d m" "in_bounds d' m'" "cid d m = cid d' m'"
  shows "d = d' \<and> m = m'"
proof -
  let ?d = "word_of_nat d :: 64 word" and ?m = "word_of_nat m :: 64 word"
  let ?d' = "word_of_nat d' :: 64 word" and ?m' = "word_of_nat m' :: 64 word"
  have e: "entry_id (Entry ?d ?m True) = entry_id (Entry ?d' ?m' True)"
    using assms(3) by (simp only: cid_def)
  have "Entry ?d ?m True = Entry ?d' ?m' True"
    by (rule same_id_same_polarity[OF e]) (simp only: isNegative_Entry)
  then have w: "?d = ?d'" "?m = ?m'"
    using Entry_inj[OF in_bounds_words[OF assms(1)] in_bounds_words[OF assms(2)], of True True]
    by blast+
  have b: "d < 2^64" "d' < 2^64" "m < 2^64" "m' < 2^64"
    using assms(1,2) by (simp_all add: in_bounds_def)
  show ?thesis
    using word_of_nat_inj[OF b(1,2) w(1)] word_of_nat_inj[OF b(3,4) w(2)] by simp
qed

lemma doc_of_cid:
  assumes "in_bounds d m"
  shows "doc_of (cid d m) = word_of_nat d"
proof -
  have "doc_of (cid d m) = documentId (Entry (word_of_nat d) (word_of_nat m) True)"
    by (simp only: doc_of_def cid_def documentId_entry_id)
  then show ?thesis
    by (simp only: documentId_Entry_bounded[OF in_bounds_words[OF assms]])
qed

lemma Entry_not_max:
  assumes "in_bounds d m"
  shows "Entry (word_of_nat d) (word_of_nat m) p \<noteq> Entry_max"
proof
  assume "Entry (word_of_nat d) (word_of_nat m) p = Entry_max"
  then have "(word_of_nat d :: 64 word) = 2^47 - 1"
    using Entry_eq_max[OF in_bounds_words[OF assms], of p] by simp
  then have "unat (word_of_nat d :: 64 word) = 2^47 - 1" by simp
  moreover have "unat (word_of_nat d :: 64 word) = d"
    using assms by (simp add: in_bounds_def unat_word_of_nat)
  ultimately show False using assms by (simp add: in_bounds_def)
qed

section \<open>Entry and build check no bounds\<close>

lemma build_eq_create: "build docs = create docs"
  by (simp add: create_def)

lemma level_build_lookup:
  "set (lookup (level (indexs (build docs)) n) k v) = docs_entries 0 docs n k v"
proof (cases "n < length (indexs (create docs))")
  case True
  then show ?thesis
    using create_lookup(1)[OF True, of k v] by (simp add: build_eq_create level_def)
next
  case False
  then have "n \<ge> length (indexs (build_documents 0 docs \<lparr>indexs = [], zlist = []\<rparr>))"
    by (simp add: length_indexs_create)
  then have "set (lookup (level (indexs (build_documents 0 docs \<lparr>indexs = [], zlist = []\<rparr>)) n) k v) = {}"
    by (simp add: level_def)
  then have "docs_entries 0 docs n k v = {}"
    unfolding build_documents_lookup by (simp add: level_def)
  then show ?thesis using False by (simp add: build_eq_create level_def)
qed

text \<open>
  C2, as stated: constructing an Entry with a document id of at least \<open>2^47\<close> or a
  conjunction index of at least \<open>2^16\<close> fails, and build fails whenever an index exceeds
  the bounds. Neither has a check. At document id \<open>2^47\<close> the constructor returns the Entry
  of document 0, and at conjunction index \<open>2^16\<close> of document 0 it returns the Entry of
  conjunction 0 of document 1. \<^verbatim>\<open>build\<close> on one document with 65537 conjunctions without
  expressions returns an index whose \<^verbatim>\<open>z_\<close> holds, for the last conjunction, the Entry of
  conjunction 0 of document 1, a document the list does not have.
\<close>

theorem Entry_and_build_out_of_bounds:
  "Entry (2^47) 0 True = Entry 0 0 True \<and> documentId (Entry (2^47) 0 True) = 0
   \<and> Entry 0 (2^16) True = Entry 1 0 True \<and> documentId (Entry 0 (2^16) True) = 1
   \<and> Entry 1 0 True
       \<in> set (zlist (build [\<lparr>conjunctions =
                                  replicate 65537 \<lparr>expressions = ([] :: string Expression list)\<rparr>\<rparr>]))"
proof -
  let ?docs = "[\<lparr>conjunctions = replicate 65537 \<lparr>expressions = ([] :: string Expression list)\<rparr>\<rparr>]"
  have "is_conj ?docs 0 65536" by (simp add: is_conj_def)
  moreover have "getConjunctionSize (conj_at ?docs 0 65536) = 0"
    by (simp add: conj_at_def getConjunctionSize_def)
  ultimately have "Entry (word_of_nat 0) (word_of_nat 65536) True \<in> docs_zero 0 ?docs"
    unfolding docs_zero_iff by blast
  moreover have "Entry (word_of_nat 0) (word_of_nat 65536) True = Entry 1 0 True"
    by (simp add: Entry_def)
  ultimately have "Entry 1 0 True \<in> set (zlist (build ?docs))"
    by (simp only: build_eq_create create_zlist(1))
  moreover have "Entry (2^47) 0 True = Entry 0 0 True \<and> documentId (Entry (2^47) 0 True) = 0
   \<and> Entry 0 (2^16) True = Entry 1 0 True \<and> documentId (Entry 0 (2^16) True) = 1"
    by (simp add: Entry_def documentId_def)
  ultimately show ?thesis by blast
qed

text \<open>
  C2, amended: neither the constructor of Entry nor \<^verbatim>\<open>build\<close> checks a bound or fails.
  For all arguments the constructor returns the packed word, in which a document id loses
  its bits from bit 47 on and a conjunction index spills its bits from bit 16 on into the
  document id: \<^verbatim>\<open>documentId()\<close> is \<open>(docId mod 2^47) OR ((index mod 2^63) div 2^16)\<close>,
  \<^verbatim>\<open>conjunctionIndex()\<close> is \<open>index mod 2^16\<close>, and the polarity is kept. For every list of
  documents \<^verbatim>\<open>build\<close> returns the index in which \<^verbatim>\<open>z_\<close> holds exactly the packed Entries
  \<open>Entry(d, m, true)\<close> of the conjunctions \<open>m\<close> of documents \<open>d\<close> that have no positive
  expression, and the posting list of size \<open>n\<close>, key \<open>k\<close> and value \<open>v\<close> holds exactly the
  packed Entries \<open>Entry(d, m, positive)\<close> of the expressions with key \<open>k\<close> and value \<open>v\<close> in
  the conjunctions of size \<open>n\<close>, whatever \<open>d\<close> and \<open>m\<close> are (a posting list that does not
  exist counts as empty).
\<close>

theorem Entry_and_build_unchecked:
  "documentId (Entry docId index p) = take_bit 47 docId OR drop_bit 16 (take_bit 63 index)
   \<and> conjunctionIndex (Entry docId index p) = take_bit 16 index
   \<and> isNegative (Entry docId index p) = (\<not> p)
   \<and> set (zlist (build docs))
       = {Entry (word_of_nat d) (word_of_nat m) True | d m.
            d < length docs \<and> m < length (conjunctions (docs ! d))
            \<and> getConjunctionSize (conjunctions (docs ! d) ! m) = 0}
   \<and> set (lookup (level (indexs (build docs)) n) k v)
       = {Entry (word_of_nat d) (word_of_nat m) (positive e) | d m e.
            d < length docs \<and> m < length (conjunctions (docs ! d))
            \<and> getConjunctionSize (conjunctions (docs ! d) ! m) = n
            \<and> e \<in> set (expressions (conjunctions (docs ! d) ! m))
            \<and> key e = k \<and> v \<in> vals_set (exvalues e)}"
proof -
  have z: "set (zlist (build docs))
       = {Entry (word_of_nat d) (word_of_nat m) True | d m.
            d < length docs \<and> m < length (conjunctions (docs ! d))
            \<and> getConjunctionSize (conjunctions (docs ! d) ! m) = 0}"
    unfolding build_eq_create create_zlist(1)
    by (rule set_eqI) (simp only: docs_zero_iff is_conj_def conj_at_def mem_Collect_eq, blast)
  have l: "set (lookup (level (indexs (build docs)) n) k v)
       = {Entry (word_of_nat d) (word_of_nat m) (positive e) | d m e.
            d < length docs \<and> m < length (conjunctions (docs ! d))
            \<and> getConjunctionSize (conjunctions (docs ! d) ! m) = n
            \<and> e \<in> set (expressions (conjunctions (docs ! d) ! m))
            \<and> key e = k \<and> v \<in> vals_set (exvalues e)}"
    unfolding level_build_lookup
    by (rule set_eqI)
       (simp only: docs_entries_iff is_conj_def conj_at_def mem_Collect_eq Bex_def, blast)
  show ?thesis
    using z l by (simp only: documentId_Entry conjunctionIndex_Entry isNegative_Entry simp_thms)
qed


section \<open>Retrieval against the specification\<close>

subsection \<open>What the specification says a retrieval returns\<close>

text \<open>
  The specification's reading of an assignment and of a document, word for word:
  \<open>assigned s k\<close> is the set \<open>A[k]\<close> of the values the assignment binds to the key \<open>k\<close>; a
  positive predicate \<open>(k, V)\<close> holds when some value of \<open>A[k]\<close> is in \<open>V\<close>, a negative one
  when none is; a conjunction holds when all its predicates hold, a document matches when
  one of its conjunctions holds, and \<open>matching_ids\<close> is the set of the positions of the
  matching documents. \<open>wf_documents\<close> and \<open>wf_assignment\<close> are the conditions under which
  \<^verbatim>\<open>retrieve\<close> is shown to return that set.
\<close>

definition assigned :: "'k Assignment \<Rightarrow> 'k \<Rightarrow> (string + 64 word) set" where
  "assigned s k = (\<Union>(k', vs) \<in> set (triggers s). if k' = k then vals_set vs else {})"

definition predicate_holds :: "'k Assignment \<Rightarrow> 'k Expression \<Rightarrow> bool" where
  "predicate_holds s e =
     (if positive e then (\<exists>v \<in> assigned s (key e). v \<in> vals_set (exvalues e))
      else (\<forall>v \<in> assigned s (key e). v \<notin> vals_set (exvalues e)))"

definition conjunction_holds :: "'k Assignment \<Rightarrow> 'k Conjunction \<Rightarrow> bool" where
  "conjunction_holds s c = (\<forall>e \<in> set (expressions c). predicate_holds s e)"

definition document_matches :: "'k Assignment \<Rightarrow> 'k Document \<Rightarrow> bool" where
  "document_matches s d = (\<exists>c \<in> set (conjunctions d). conjunction_holds s c)"

definition matching_ids :: "'k Document list \<Rightarrow> 'k Assignment \<Rightarrow> 64 word set" where
  "matching_ids docs s =
     word_of_nat ` {i \<in> {..<length docs}. document_matches s (docs ! i)}"

definition wf_documents :: "'k Document list \<Rightarrow> bool" where
  "wf_documents docs \<longleftrightarrow>
     length docs < 2^47 \<and>
     (\<forall>d \<in> set docs. length (conjunctions d) \<le> 2^16 \<and>
        (\<forall>c \<in> set (conjunctions d).
           distinct (map key (filter positive (expressions c))) \<and> getConjunctionSize c < 2^31)) \<and>
     (\<exists>d \<in> set docs. \<exists>c \<in> set (conjunctions d). expressions c \<noteq> [])"

definition wf_assignment :: "'k Assignment \<Rightarrow> bool" where
  "wf_assignment s \<longleftrightarrow>
     distinct (map fst (triggers s)) \<and> length (triggers s) \<le> asize s \<and> asize s < 2^31"

subsection \<open>A trigger hits a predicate\<close>

definition hit :: "'k \<times> Values \<Rightarrow> 'k Expression \<Rightarrow> bool" where
  "hit t e \<longleftrightarrow> key e = fst t \<and> vals_set (exvalues e) \<inter> vals_set (snd t) \<noteq> {}"

lemma predicate_holds_iff:
  "predicate_holds s e \<longleftrightarrow> (positive e \<longleftrightarrow> (\<exists>t \<in> set (triggers s). hit t e))"
proof -
  have "(\<exists>v \<in> assigned s (key e). v \<in> vals_set (exvalues e)) \<longleftrightarrow> (\<exists>t \<in> set (triggers s). hit t e)"
  proof
    assume "\<exists>v \<in> assigned s (key e). v \<in> vals_set (exvalues e)"
    then obtain v k' vs where "(k', vs) \<in> set (triggers s)" "k' = key e" "v \<in> vals_set vs"
      "v \<in> vals_set (exvalues e)"
      by (auto simp add: assigned_def split: if_splits)
    then have "(k', vs) \<in> set (triggers s) \<and> hit (k', vs) e"
      by (auto simp add: hit_def)
    then show "\<exists>t \<in> set (triggers s). hit t e" by blast
  next
    assume "\<exists>t \<in> set (triggers s). hit t e"
    then obtain t v where "t \<in> set (triggers s)" "key e = fst t" "v \<in> vals_set (exvalues e)"
      "v \<in> vals_set (snd t)"
      by (auto simp add: hit_def)
    then show "\<exists>v \<in> assigned s (key e). v \<in> vals_set (exvalues e)"
      by (cases t) (auto simp add: assigned_def intro!: bexI[of _ v] bexI[of _ t])
  qed
  then show ?thesis
    by (auto simp add: predicate_holds_def)
qed

subsection \<open>The groups of one size\<close>

definition trig_group :: "'k InvertedIndex \<Rightarrow> 'k \<times> Values \<Rightarrow> PostingListGroup" where
  "trig_group ix t = InvertedIndex_trigger PostingListGroup_new (fst t) (snd t) ix"

definition z_group :: "'k Indexer \<Rightarrow> PostingListGroup" where
  "z_group idx = PostingListGroup_add (PostingList_new (zlist idx)) PostingListGroup_new"

lemma getPostingLists_eq:
  "getPostingLists idx n s =
     filter (\<lambda>g. \<not> PostingListGroup_empty g) (map (trig_group (indexs idx ! n)) (triggers s))
     @ (if n = 0 \<and> zlist idx \<noteq> [] then [z_group idx] else [])"
proof -
  have "(\<lambda>res (ky, vals).
          let grp = InvertedIndex_trigger PostingListGroup_new ky vals (indexs idx ! n)
          in if \<not> PostingListGroup_empty grp then res @ [grp] else res)
      = (\<lambda>res t. if \<not> PostingListGroup_empty (trig_group (indexs idx ! n) t)
                  then res @ [trig_group (indexs idx ! n) t] else res)"
    by (intro ext) (simp add: trig_group_def Let_def split: prod.splits)
  then show ?thesis
    by (simp add: getPostingLists_def z_group_def Let_def
          foldl_collect[of "\<lambda>g. \<not> PostingListGroup_empty g" "trig_group (indexs idx ! n)" "[]"])
qed

definition wf_bounds :: "'k Document list \<Rightarrow> bool" where
  "wf_bounds docs \<longleftrightarrow> (\<forall>d m. is_conj docs d m \<longrightarrow> in_bounds d m)"

lemma wf_documents_bounds: "wf_documents docs \<Longrightarrow> wf_bounds docs"
proof -
  assume wf: "wf_documents docs"
  show "wf_bounds docs"
    unfolding wf_bounds_def
  proof (intro allI impI)
    fix d m assume c: "is_conj docs d m"
    then have "docs ! d \<in> set docs" by (simp add: is_conj_def)
    then have "length (conjunctions (docs ! d)) \<le> 2^16"
      using wf by (simp add: wf_documents_def)
    moreover have "length docs < 2^47" using wf by (simp add: wf_documents_def)
    ultimately show "in_bounds d m"
      using c by (simp add: is_conj_def in_bounds_def)
  qed
qed

lemma docs_entries_not_max:
  assumes "wf_bounds docs"
  shows "Entry_max \<notin> docs_entries 0 docs n k v"
  using assms Entry_not_max unfolding docs_entries_iff wf_bounds_def by metis

lemma docs_zero_not_max:
  assumes "wf_bounds docs"
  shows "Entry_max \<notin> docs_zero 0 docs"
  using assms Entry_not_max unfolding docs_zero_iff wf_bounds_def by metis

lemma trig_group_create:
  assumes "wf_bounds docs" "n < length (indexs (create docs))"
  shows "grp_ok (trig_group (indexs (create docs) ! n) t)"
    and "grp_entries (trig_group (indexs (create docs) ! n) t)
         = (\<Union>v \<in> vals_set (snd t). docs_entries 0 docs n (fst t) v)"
proof -
  let ?f = "\<lambda>v. lookup (indexs (create docs) ! n) (fst t) v"
  have "\<forall>v \<in> set (vals_list (snd t)). sorted (?f v) \<and> Entry_max \<notin> set (?f v)"
    using create_lookup[OF assms(2)] docs_entries_not_max[OF assms(1)] by simp
  then have "grp_ok (foldl (\<lambda>g v. PostingListGroup_add (PostingList_new (?f v)) g)
                 PostingListGroup_new (vals_list (snd t)))
       \<and> grp_entries (foldl (\<lambda>g v. PostingListGroup_add (PostingList_new (?f v)) g)
                 PostingListGroup_new (vals_list (snd t)))
           = grp_entries PostingListGroup_new \<union> (\<Union>v \<in> set (vals_list (snd t)). set (?f v))"
    by (intro grp_fold_add) simp_all
  then show "grp_ok (trig_group (indexs (create docs) ! n) t)"
    and "grp_entries (trig_group (indexs (create docs) ! n) t)
         = (\<Union>v \<in> vals_set (snd t). docs_entries 0 docs n (fst t) v)"
    using create_lookup(1)[OF assms(2)]
    by (simp_all add: trig_group_def InvertedIndex_trigger_eq)
qed

lemma z_group_create:
  assumes "wf_bounds docs"
  shows "grp_ok (z_group (create docs))"
    and "grp_entries (z_group (create docs)) = docs_zero 0 docs"
  using grp_add[OF grp_ok_new create_zlist(2)[of docs]] docs_zero_not_max[OF assms]
  by (simp_all add: z_group_def create_zlist(1))

subsection \<open>As many triggers hit as predicates are hit\<close>

lemma count_hits:
  assumes "distinct (map fst ts)" "distinct (map key ps)"
  shows "length (filter (\<lambda>t. \<exists>e \<in> set ps. hit t e) ts)
       = length (filter (\<lambda>e. \<exists>t \<in> set ts. hit t e) ps)"
proof -
  let ?A = "{t \<in> set ts. \<exists>e \<in> set ps. hit t e}"
  let ?B = "{e \<in> set ps. \<exists>t \<in> set ts. hit t e}"
  have dts: "distinct ts" and dps: "distinct ps"
    using assms by (simp_all add: distinct_map)
  have its: "inj_on fst (set ts)" and ips: "inj_on key (set ps)"
    using assms by (simp_all add: distinct_map)
  have "length (filter (\<lambda>t. \<exists>e \<in> set ps. hit t e) ts) = card ?A"
    using dts by (simp add: distinct_length_filter Int_def conj_commute)
  also have "\<dots> = card (fst ` ?A)"
    by (rule card_image[symmetric]) (rule inj_on_subset[OF its], blast)
  also have "fst ` ?A = key ` ?B"
  proof (rule set_eqI)
    fix k
    show "k \<in> fst ` ?A \<longleftrightarrow> k \<in> key ` ?B"
    proof
      assume "k \<in> fst ` ?A"
      then obtain t e where "t \<in> set ts" "e \<in> set ps" "hit t e" "k = fst t" by blast
      moreover from this have "key e = k" by (simp add: hit_def)
      ultimately show "k \<in> key ` ?B" by force
    next
      assume "k \<in> key ` ?B"
      then obtain t e where "t \<in> set ts" "e \<in> set ps" "hit t e" "k = key e" by blast
      moreover from this have "fst t = k" by (simp add: hit_def)
      ultimately show "k \<in> fst ` ?A" by force
    qed
  qed
  also have "card (key ` ?B) = card ?B"
    by (rule card_image) (rule inj_on_subset[OF ips], blast)
  also have "\<dots> = length (filter (\<lambda>e. \<exists>t \<in> set ts. hit t e) ps)"
    using dps by (simp add: distinct_length_filter Int_def conj_commute)
  finally show ?thesis .
qed

lemma length_filter_eq_all:
  "length xs \<le> length (filter P xs) \<longleftrightarrow> (\<forall>x \<in> set xs. P x)"
proof (induction xs)
  case Nil
  show ?case by simp
next
  case (Cons x xs)
  show ?case
  proof (cases "P x")
    case True
    then show ?thesis using Cons.IH by simp
  next
    case False
    show ?thesis using False length_filter_le[of P xs]
      by (auto simp del: length_filter_le)
  qed
qed

subsection \<open>The entries of a group of the built index, by id and polarity\<close>

lemma trig_group_has:
  assumes "wf_bounds docs" "n < length (indexs (create docs))"
  shows "(\<exists>x \<in> grp_entries (trig_group (indexs (create docs) ! n) t).
            entry_id x = X \<and> isNegative x = q)
       \<longleftrightarrow> (\<exists>d m. is_conj docs d m \<and> getConjunctionSize (conj_at docs d m) = n \<and> X = cid d m
              \<and> (\<exists>e \<in> set (expressions (conj_at docs d m)). positive e = (\<not> q) \<and> hit t e))"
    (is "?L \<longleftrightarrow> ?R")
proof
  assume ?L
  then obtain x v where x: "v \<in> vals_set (snd t)" "x \<in> docs_entries 0 docs n (fst t) v"
    "entry_id x = X" "isNegative x = q"
    unfolding trig_group_create(2)[OF assms] by blast
  then obtain d m e where e: "is_conj docs d m" "getConjunctionSize (conj_at docs d m) = n"
    "e \<in> set (expressions (conj_at docs d m))" "key e = fst t" "v \<in> vals_set (exvalues e)"
    "x = Entry (word_of_nat d) (word_of_nat m) (positive e)"
    unfolding docs_entries_iff by blast
  have "X = cid d m" using x(3) e(6) by (simp add: entry_id_Entry_cid)
  moreover have "positive e = (\<not> q)" using x(4) e(6) by (auto simp add: isNegative_Entry)
  moreover have "hit t e" using e(4,5) x(1) by (auto simp add: hit_def)
  ultimately show ?R using e(1,2,3) by blast
next
  assume ?R
  then obtain d m e where e: "is_conj docs d m" "getConjunctionSize (conj_at docs d m) = n"
    "X = cid d m" "e \<in> set (expressions (conj_at docs d m))" "positive e = (\<not> q)" "hit t e"
    by blast
  obtain v where v: "v \<in> vals_set (exvalues e)" "v \<in> vals_set (snd t)" and k: "key e = fst t"
    using e(6) by (auto simp add: hit_def)
  let ?x = "Entry (word_of_nat d) (word_of_nat m) (positive e)"
  have "?x \<in> docs_entries 0 docs n (fst t) v"
    unfolding docs_entries_iff using e(1,2,4) k v(1) by blast
  then have "?x \<in> grp_entries (trig_group (indexs (create docs) ! n) t)"
    unfolding trig_group_create(2)[OF assms] using v(2) by blast
  moreover have "entry_id ?x = X" "isNegative ?x = q"
    using e(3,5) by (simp_all add: entry_id_Entry_cid isNegative_Entry)
  ultimately show ?L by blast
qed

lemma z_group_has:
  assumes "wf_bounds docs"
  shows "(\<exists>x \<in> grp_entries (z_group (create docs)). entry_id x = X \<and> isNegative x = q)
       \<longleftrightarrow> \<not> q \<and> (\<exists>d m. is_conj docs d m \<and> getConjunctionSize (conj_at docs d m) = 0
                      \<and> X = cid d m)"
    (is "?L \<longleftrightarrow> ?R")
proof
  assume ?L
  then obtain x where x: "x \<in> docs_zero 0 docs" "entry_id x = X" "isNegative x = q"
    unfolding z_group_create(2)[OF assms] by blast
  from x(1) obtain d m where "is_conj docs d m" "getConjunctionSize (conj_at docs d m) = 0"
    "x = Entry (word_of_nat d) (word_of_nat m) True"
    unfolding docs_zero_iff by blast
  with x(2,3) show ?R by (auto simp add: entry_id_Entry_cid isNegative_Entry)
next
  assume r: ?R
  then obtain d m where dm: "is_conj docs d m" "getConjunctionSize (conj_at docs d m) = 0"
    "X = cid d m" by blast
  let ?x = "Entry (word_of_nat d) (word_of_nat m) True"
  have "?x \<in> grp_entries (z_group (create docs))"
    unfolding z_group_create(2)[OF assms] docs_zero_iff using dm(1,2) by blast
  moreover have "entry_id ?x = X" "isNegative ?x = q"
    using dm(3) r by (simp_all add: entry_id_Entry_cid isNegative_Entry)
  ultimately show ?L by blast
qed

lemma trig_group_has_at:
  assumes "wf_bounds docs" "n < length (indexs (create docs))" "is_conj docs d m"
  shows "(\<exists>x \<in> grp_entries (trig_group (indexs (create docs) ! n) t).
            entry_id x = cid d m \<and> isNegative x = q)
       \<longleftrightarrow> getConjunctionSize (conj_at docs d m) = n
            \<and> (\<exists>e \<in> set (expressions (conj_at docs d m)). positive e = (\<not> q) \<and> hit t e)"
    (is "?L \<longleftrightarrow> ?R")
proof
  assume ?L
  then obtain d' m' where a: "is_conj docs d' m'" "getConjunctionSize (conj_at docs d' m') = n"
    "cid d m = cid d' m'"
    "\<exists>e \<in> set (expressions (conj_at docs d' m')). positive e = (\<not> q) \<and> hit t e"
    unfolding trig_group_has[OF assms(1,2)] by blast
  have "in_bounds d m" "in_bounds d' m'"
    using assms(1,3) a(1) by (simp_all add: wf_bounds_def)
  then have "d = d' \<and> m = m'" using a(3) by (rule cid_inj)
  with a show ?R by simp
next
  assume ?R
  then show ?L unfolding trig_group_has[OF assms(1,2)] using assms(3) by blast
qed

lemma z_group_has_at:
  assumes "wf_bounds docs" "is_conj docs d m"
  shows "(\<exists>x \<in> grp_entries (z_group (create docs)). entry_id x = cid d m \<and> isNegative x = q)
       \<longleftrightarrow> \<not> q \<and> getConjunctionSize (conj_at docs d m) = 0"
    (is "?L \<longleftrightarrow> ?R")
proof
  assume ?L
  then obtain d' m' where a: "\<not> q" "is_conj docs d' m'"
    "getConjunctionSize (conj_at docs d' m') = 0" "cid d m = cid d' m'"
    unfolding z_group_has[OF assms(1)] by blast
  have "in_bounds d m" "in_bounds d' m'"
    using assms(1,2) a(2) by (simp_all add: wf_bounds_def)
  then have "d = d' \<and> m = m'" using a(4) by (rule cid_inj)
  with a show ?R by simp
next
  assume ?R
  then show ?L unfolding z_group_has[OF assms(1)] using assms(2) by blast
qed

lemma has_pos_not_empty:
  assumes "grp_ok g" "has_pos g X"
  shows "\<not> PostingListGroup_empty g"
  using assms grp_current_max_iff[OF assms(1)]
  by (auto simp add: PostingListGroup_empty_def has_pos_def)

lemma has_neg_not_empty:
  assumes "grp_ok g" "has_neg g X"
  shows "\<not> PostingListGroup_empty g"
  using assms grp_current_max_iff[OF assms(1)]
  by (auto simp add: PostingListGroup_empty_def has_neg_def)

lemma zlist_nonempty:
  assumes "is_conj docs d m" "getConjunctionSize (conj_at docs d m) = 0"
  shows "zlist (create docs) \<noteq> []"
proof -
  have "Entry (word_of_nat d) (word_of_nat m) True \<in> docs_zero 0 docs"
    unfolding docs_zero_iff using assms by blast
  then have "set (zlist (create docs)) \<noteq> {}" unfolding create_zlist(1) by blast
  then show ?thesis by simp
qed

lemma level_grp_ok:
  assumes "wf_bounds docs" "n < length (indexs (create docs))"
  shows "\<forall>g \<in> set (getPostingLists (create docs) n s). grp_ok g"
  unfolding getPostingLists_eq
  using trig_group_create(1)[OF assms] z_group_create(1)[OF assms(1)]
  by auto

lemma level_has_pos_conj:
  assumes "wf_bounds docs" "n < length (indexs (create docs))"
    "g \<in> set (getPostingLists (create docs) n s)" "has_pos g X"
  shows "\<exists>d m. is_conj docs d m \<and> getConjunctionSize (conj_at docs d m) = n \<and> X = cid d m"
proof -
  from assms(3) consider t where "g = trig_group (indexs (create docs) ! n) t"
    | "n = 0" "g = z_group (create docs)"
    unfolding getPostingLists_eq by (auto split: if_splits)
  then show ?thesis
  proof cases
    case 1
    with assms(4) have "\<exists>x \<in> grp_entries (trig_group (indexs (create docs) ! n) t).
        entry_id x = X \<and> isNegative x = False"
      by (simp add: has_pos_def)
    then show ?thesis unfolding trig_group_has[OF assms(1,2)] by blast
  next
    case 2
    with assms(4) have "\<exists>x \<in> grp_entries (z_group (create docs)).
        entry_id x = X \<and> isNegative x = False"
      by (simp add: has_pos_def)
    then show ?thesis unfolding z_group_has[OF assms(1)] using 2(1) by blast
  qed
qed

lemma level_pos_count:
  assumes "wf_bounds docs" "n < length (indexs (create docs))"
    "is_conj docs d m" "getConjunctionSize (conj_at docs d m) = n"
  shows "pos_count (getPostingLists (create docs) n s) (cid d m)
       = length (filter (\<lambda>t. \<exists>e \<in> set (filter positive (expressions (conj_at docs d m))). hit t e)
                        (triggers s))
         + (if n = 0 then 1 else 0)"
proof -
  let ?G = "trig_group (indexs (create docs) ! n)"
  let ?X = "cid d m"
  let ?c = "conj_at docs d m"
  have hp: "has_pos (?G t) ?X \<longleftrightarrow> (\<exists>e \<in> set (filter positive (expressions ?c)). hit t e)" for t
    using trig_group_has_at[OF assms(1,2,3), of t False] assms(4)
    by (auto simp add: has_pos_def)
  have "filter (\<lambda>g. has_pos g ?X) (filter (\<lambda>g. \<not> PostingListGroup_empty g) (map ?G (triggers s)))
      = filter (\<lambda>g. has_pos g ?X) (map ?G (triggers s))"
    unfolding filter_filter
  proof (rule filter_cong[OF refl])
    fix g assume "g \<in> set (map ?G (triggers s))"
    then have "grp_ok g" using trig_group_create(1)[OF assms(1,2)] by auto
    then show "(\<not> PostingListGroup_empty g \<and> has_pos g ?X) = has_pos g ?X"
      using has_pos_not_empty by blast
  qed
  then have a: "length (filter (\<lambda>g. has_pos g ?X)
          (filter (\<lambda>g. \<not> PostingListGroup_empty g) (map ?G (triggers s))))
      = length (filter (\<lambda>t. \<exists>e \<in> set (filter positive (expressions ?c)). hit t e) (triggers s))"
    by (simp add: filter_map comp_def hp)
  have z: "has_pos (z_group (create docs)) ?X \<and> zlist (create docs) \<noteq> []" if "n = 0"
    using z_group_has_at[OF assms(1,3), of False] assms(4) that zlist_nonempty[OF assms(3)]
    by (simp add: has_pos_def)
  show ?thesis
    unfolding pos_count_def getPostingLists_eq filter_append length_append a
    using z by simp
qed

lemma level_has_neg:
  assumes "wf_bounds docs" "n < length (indexs (create docs))"
    "is_conj docs d m" "getConjunctionSize (conj_at docs d m) = n"
  shows "(\<exists>g \<in> set (getPostingLists (create docs) n s). has_neg g (cid d m))
       \<longleftrightarrow> (\<exists>t \<in> set (triggers s). \<exists>e \<in> set (expressions (conj_at docs d m)).
               \<not> positive e \<and> hit t e)"
    (is "?L \<longleftrightarrow> ?R")
proof -
  let ?G = "trig_group (indexs (create docs) ! n)"
  let ?X = "cid d m"
  let ?c = "conj_at docs d m"
  have hn: "has_neg (?G t) ?X \<longleftrightarrow> (\<exists>e \<in> set (expressions ?c). \<not> positive e \<and> hit t e)" for t
    using trig_group_has_at[OF assms(1,2,3), of t True] assms(4)
    by (auto simp add: has_neg_def)
  have zn: "\<not> has_neg (z_group (create docs)) ?X"
    using z_group_has_at[OF assms(1,3), of True] by (simp add: has_neg_def)
  show ?thesis
  proof
    assume ?L
    then obtain g where g: "g \<in> set (getPostingLists (create docs) n s)" "has_neg g ?X" by blast
    from g(1) consider t where "t \<in> set (triggers s)" "g = ?G t" | "g = z_group (create docs)"
      unfolding getPostingLists_eq by (auto split: if_splits)
    then show ?R
    proof cases
      case 1
      then show ?thesis using g(2) hn by blast
    next
      case 2
      then show ?thesis using g(2) zn by simp
    qed
  next
    assume ?R
    then obtain t where t: "t \<in> set (triggers s)" "has_neg (?G t) ?X" using hn by blast
    have "\<not> PostingListGroup_empty (?G t)"
      using has_neg_not_empty[OF trig_group_create(1)[OF assms(1,2)] t(2)] .
    then have "?G t \<in> set (getPostingLists (create docs) n s)"
      unfolding getPostingLists_eq using t(1) by simp
    then show ?L using t(2) by blast
  qed
qed

subsection \<open>One size: the inner loop finds the conjunctions that hold\<close>

lemma wf_documents_distinct:
  assumes "wf_documents docs" "is_conj docs d m"
  shows "distinct (map key (filter positive (expressions (conj_at docs d m))))"
proof -
  have "docs ! d \<in> set docs" "conj_at docs d m \<in> set (conjunctions (docs ! d))"
    using assms(2) by (simp_all add: is_conj_def conj_at_def)
  then show ?thesis using assms(1) unfolding wf_documents_def by blast
qed

definition sat :: "'k Assignment \<Rightarrow> 'k Expression \<Rightarrow> bool" where
  "sat s e \<longleftrightarrow> (\<exists>t \<in> set (triggers s). hit t e)"

lemma conjunction_holds_iff:
  "conjunction_holds s c \<longleftrightarrow>
     (\<forall>e \<in> set (filter positive (expressions c)). sat s e)
     \<and> \<not> (\<exists>t \<in> set (triggers s). \<exists>e \<in> set (expressions c). \<not> positive e \<and> hit t e)"
  unfolding conjunction_holds_def predicate_holds_iff sat_def by auto

lemma level_count:
  assumes "wf_documents docs" "wf_assignment s" "n < length (indexs (create docs))"
    "is_conj docs d m" "getConjunctionSize (conj_at docs d m) = n"
  shows "pos_count (getPostingLists (create docs) n s) (cid d m)
       = length (filter (sat s) (filter positive (expressions (conj_at docs d m))))
         + (if n = 0 then 1 else 0)"
proof -
  have "distinct (map fst (triggers s))" using assms(2) by (simp add: wf_assignment_def)
  then have "length (filter (\<lambda>t. \<exists>e \<in> set (filter positive (expressions (conj_at docs d m))). hit t e)
                        (triggers s))
     = length (filter (\<lambda>e. \<exists>t \<in> set (triggers s). hit t e)
                 (filter positive (expressions (conj_at docs d m))))"
    using wf_documents_distinct[OF assms(1,4)] by (rule count_hits)
  then show ?thesis
    unfolding level_pos_count[OF wf_documents_bounds[OF assms(1)] assms(3,4,5)] sat_def
    by (rule arg_cong)
qed

lemma level_at_most:
  assumes "wf_documents docs" "wf_assignment s" "n < length (indexs (create docs))"
  shows "at_most (if n = 0 then 1 else n) (getPostingLists (create docs) n s)"
  unfolding at_most_def
proof
  fix X
  let ?gs = "getPostingLists (create docs) n s"
  show "pos_count ?gs X \<le> (if n = 0 then 1 else n)"
  proof (cases "\<exists>g \<in> set ?gs. has_pos g X")
    case True
    then obtain d m where dm: "is_conj docs d m" "getConjunctionSize (conj_at docs d m) = n"
      "X = cid d m"
      using level_has_pos_conj[OF wf_documents_bounds[OF assms(1)] assms(3)] by blast
    have "length (filter (sat s) (filter positive (expressions (conj_at docs d m)))) \<le> n"
      using length_filter_le[of "sat s" "filter positive (expressions (conj_at docs d m))"] dm(2)
      by (simp only: getConjunctionSize_def)
    then show ?thesis
      unfolding dm(3) level_count[OF assms dm(1,2)] by (cases "n = 0") auto
  next
    case False
    then have "filter (\<lambda>g. has_pos g X) ?gs = []" by (simp add: filter_empty_conv)
    then show ?thesis by (simp add: pos_count_def)
  qed
qed

lemma level_matches_at:
  assumes "wf_documents docs" "wf_assignment s" "n < length (indexs (create docs))"
    "is_conj docs d m" "getConjunctionSize (conj_at docs d m) = n"
  shows "matches (if n = 0 then 1 else n) (getPostingLists (create docs) n s) (cid d m)
       \<longleftrightarrow> conjunction_holds s (conj_at docs d m)"
proof -
  let ?ps = "filter positive (expressions (conj_at docs d m))"
  have len: "length ?ps = n" using assms(5) by (simp only: getConjunctionSize_def)
  have "(if n = 0 then 1 else n) \<le> length (filter (sat s) ?ps) + (if n = 0 then 1 else 0)
        \<longleftrightarrow> (\<forall>e \<in> set ?ps. sat s e)"
  proof (cases "n = 0")
    case True
    then have "?ps = []" using len by simp
    then show ?thesis using True by simp
  next
    case False
    then show ?thesis using length_filter_eq_all[of ?ps "sat s"] len by simp
  qed
  then show ?thesis
    unfolding matches_def level_count[OF assms] conjunction_holds_iff
      level_has_neg[OF wf_documents_bounds[OF assms(1)] assms(3,4,5), symmetric]
    by blast
qed

lemma level_matches:
  assumes "wf_documents docs" "wf_assignment s" "n < length (indexs (create docs))"
  shows "matches (if n = 0 then 1 else n) (getPostingLists (create docs) n s) X
       \<longleftrightarrow> (\<exists>d m. is_conj docs d m \<and> getConjunctionSize (conj_at docs d m) = n
                \<and> conjunction_holds s (conj_at docs d m) \<and> X = cid d m)"
    (is "?L \<longleftrightarrow> ?R")
proof
  let ?gs = "getPostingLists (create docs) n s"
  assume l: ?L
  then have "0 < pos_count ?gs X" by (auto simp add: matches_def split: if_splits)
  then have "filter (\<lambda>g. has_pos g X) ?gs \<noteq> []" by (simp add: pos_count_def)
  then have "\<exists>g \<in> set ?gs. has_pos g X" by (simp add: filter_empty_conv)
  then obtain d m where dm: "is_conj docs d m" "getConjunctionSize (conj_at docs d m) = n"
    "X = cid d m"
    using level_has_pos_conj[OF wf_documents_bounds[OF assms(1)] assms(3)] by blast
  then have "conjunction_holds s (conj_at docs d m)"
    using l level_matches_at[OF assms dm(1,2)] by simp
  with dm show ?R by blast
next
  assume ?R
  then show ?L using level_matches_at[OF assms] by blast
qed

definition level_docs :: "'k Document list \<Rightarrow> 'k Assignment \<Rightarrow> nat \<Rightarrow> nat set" where
  "level_docs docs s n = {d. \<exists>m. is_conj docs d m \<and> getConjunctionSize (conj_at docs d m) = n
                             \<and> conjunction_holds s (conj_at docs d m)}"

lemma retrieve_size_level:
  fixes res :: ResultSet
  assumes "wf_documents docs" "wf_assignment s" "n < length (indexs (create docs))"
  shows "result_ids (retrieve_size (create docs) s n res)
       = result_ids res \<union> word_of_nat ` level_docs docs s n"
proof -
  let ?gs = "getPostingLists (create docs) n s"
  let ?k = "if n = 0 then 1 else n"
  have k: "0 < ?k" by simp
  have ok: "\<forall>g \<in> set ?gs. grp_ok g"
    by (rule level_grp_ok[OF wf_documents_bounds[OF assms(1)] assms(3)])
  have m: "result_ids (merge_loop ?k ?gs res) = result_ids res \<union> doc_of ` {X. matches ?k ?gs X}"
    using ok level_at_most[OF assms] k by (rule merge_loop_matches)
  have short: "{X. matches ?k ?gs X} = {}" if "length ?gs < ?k"
  proof -
    have "\<not> matches ?k ?gs X" for X
      using pos_count_le_length[of ?gs X] that unfolding matches_def by linarith
    then show ?thesis by blast
  qed
  have r: "result_ids (retrieve_size (create docs) s n res)
         = result_ids res \<union> doc_of ` {X. matches ?k ?gs X}"
  proof (cases "length ?gs < ?k")
    case True
    then have "retrieve_size (create docs) s n res = res"
      by (simp add: retrieve_size_def Let_def)
    then show ?thesis using short[OF True] by simp
  next
    case False
    then have "retrieve_size (create docs) s n res = merge_loop ?k ?gs res"
      by (simp add: retrieve_size_def Let_def)
    then show ?thesis using m by simp
  qed
  have "doc_of ` {X. matches ?k ?gs X} = word_of_nat ` level_docs docs s n"
  proof (rule set_eqI)
    fix w
    show "w \<in> doc_of ` {X. matches ?k ?gs X} \<longleftrightarrow> w \<in> word_of_nat ` level_docs docs s n"
    proof
      assume "w \<in> doc_of ` {X. matches ?k ?gs X}"
      then obtain X where X: "matches ?k ?gs X" "w = doc_of X" by blast
      then obtain d m where dm: "is_conj docs d m" "getConjunctionSize (conj_at docs d m) = n"
        "conjunction_holds s (conj_at docs d m)" "X = cid d m"
        unfolding level_matches[OF assms] by blast
      have "in_bounds d m" using wf_documents_bounds[OF assms(1)] dm(1) by (simp add: wf_bounds_def)
      then have "w = word_of_nat d" using X(2) dm(4) by (simp add: doc_of_cid)
      moreover have "d \<in> level_docs docs s n" using dm(1,2,3) unfolding level_docs_def by blast
      ultimately show "w \<in> word_of_nat ` level_docs docs s n" by blast
    next
      assume "w \<in> word_of_nat ` level_docs docs s n"
      then obtain d m where dm: "is_conj docs d m" "getConjunctionSize (conj_at docs d m) = n"
        "conjunction_holds s (conj_at docs d m)" "w = word_of_nat d"
        unfolding level_docs_def by blast
      have "in_bounds d m" using wf_documents_bounds[OF assms(1)] dm(1) by (simp add: wf_bounds_def)
      then have "w = doc_of (cid d m)" using dm(4) by (simp add: doc_of_cid)
      moreover have "matches ?k ?gs (cid d m)"
        unfolding level_matches[OF assms] using dm(1,2,3) by blast
      ultimately show "w \<in> doc_of ` {X. matches ?k ?gs X}" by blast
    qed
  qed
  with r show ?thesis by simp
qed

lemma retrieve_from_levels:
  fixes res :: ResultSet
  assumes "wf_documents docs" "wf_assignment s" "i < length (indexs (create docs))"
  shows "result_ids (retrieve_from (create docs) s i res)
       = result_ids res \<union> word_of_nat ` (\<Union>n \<le> i. level_docs docs s n)"
  using assms(3)
proof (induction i arbitrary: res)
  case 0
  show ?case using retrieve_size_level[OF assms(1,2) 0] by simp
next
  case (Suc i)
  have i: "i < length (indexs (create docs))" using Suc.prems by simp
  show ?case
    unfolding retrieve_from.simps Suc.IH[OF i] retrieve_size_level[OF assms(1,2) Suc.prems]
      atMost_Suc
    by (simp only: UN_insert image_Un Un_assoc Un_commute[of "word_of_nat ` level_docs docs s (Suc i)"])
qed

subsection \<open>All sizes: the outer loop\<close>

lemma to_int_word_of_nat:
  assumes "m < 2 ^ 31"
  shows "to_int (word_of_nat m) = int m"
proof -
  have "m < 2 ^ 64" using assms by simp
  then have "take_bit 64 m = m" by (simp only: take_bit_nat_eq_self)
  then have u: "(ucast (word_of_nat m :: 64 word) :: 32 word) = word_of_nat m"
    by (simp add: unsigned_of_nat)
  have "sint (word_of_int (int m) :: 32 word) = (int m + 2 ^ 31) mod 2 ^ 32 - 2 ^ 31"
    unfolding int_word_sint by simp
  also have "\<dots> = int m" using assms by simp
  finally have "sint (word_of_nat m :: 32 word) = int m" by simp
  then show ?thesis by (simp only: to_int_def u)
qed

lemma holds_size_le:
  assumes "wf_documents docs" "wf_assignment s" "is_conj docs d m"
    "conjunction_holds s (conj_at docs d m)"
  shows "getConjunctionSize (conj_at docs d m) \<le> asize s"
proof -
  let ?ps = "filter positive (expressions (conj_at docs d m))"
  have "\<forall>e \<in> set ?ps. \<exists>t \<in> set (triggers s). hit t e"
    using assms(4) unfolding conjunction_holds_iff sat_def by blast
  then have "filter (\<lambda>e. \<exists>t \<in> set (triggers s). hit t e) ?ps = ?ps"
    by (simp only: filter_id_conv)
  moreover have "distinct (map fst (triggers s))" using assms(2) by (simp add: wf_assignment_def)
  then have "length (filter (\<lambda>t. \<exists>e \<in> set ?ps. hit t e) (triggers s))
     = length (filter (\<lambda>e. \<exists>t \<in> set (triggers s). hit t e) ?ps)"
    using wf_documents_distinct[OF assms(1,3)] by (rule count_hits)
  ultimately have "length ?ps = length (filter (\<lambda>t. \<exists>e \<in> set ?ps. hit t e) (triggers s))"
    by simp
  also have "\<dots> \<le> length (triggers s)" by (rule length_filter_le)
  also have "\<dots> \<le> asize s" using assms(2) by (simp add: wf_assignment_def)
  finally show ?thesis by (simp only: getConjunctionSize_def)
qed

lemma size_lt_levels:
  assumes "0 < length (indexs (create docs))" "is_conj docs d m"
  shows "getConjunctionSize (conj_at docs d m) < length (indexs (create docs))"
proof (cases "expressions (conj_at docs d m) = []")
  case True
  then show ?thesis using assms(1) by (simp add: getConjunctionSize_def)
next
  case False
  with assms(2) show ?thesis by (rule create_length_covers)
qed

lemma wf_documents_levels:
  assumes "wf_documents docs"
  shows "0 < length (indexs (create docs))" "length (indexs (create docs)) \<le> 2 ^ 31"
proof -
  obtain d c where dc: "d \<in> set docs" "c \<in> set (conjunctions d)" "expressions c \<noteq> []"
    using assms unfolding wf_documents_def by blast
  then obtain i j where "i < length docs" "docs ! i = d" "j < length (conjunctions d)"
    "conjunctions d ! j = c"
    by (metis in_set_conv_nth)
  then have "is_conj docs i j" "expressions (conj_at docs i j) \<noteq> []"
    using dc(3) by (simp_all add: is_conj_def conj_at_def)
  then have "getConjunctionSize (conj_at docs i j) < length (indexs (create docs))"
    by (rule create_length_covers)
  then show "0 < length (indexs (create docs))" by linarith
  have "\<forall>d \<in> set docs. \<forall>c \<in> set (conjunctions d). getConjunctionSize c < 2 ^ 31"
    using assms unfolding wf_documents_def by blast
  then show "length (indexs (create docs)) \<le> 2 ^ 31" by (rule create_length_bound)
qed

lemma matching_levels:
  assumes "wf_documents docs" "wf_assignment s"
  shows "{i \<in> {..<length docs}. document_matches s (docs ! i)}
       = (\<Union>n \<le> min (length (indexs (create docs)) - 1) (asize s). level_docs docs s n)"
    (is "?A = ?B")
proof (rule set_eqI)
  fix d
  show "d \<in> ?A \<longleftrightarrow> d \<in> ?B"
  proof
    assume "d \<in> ?A"
    then have d: "d < length docs" and "document_matches s (docs ! d)" by simp_all
    then obtain c where c: "c \<in> set (conjunctions (docs ! d))" "conjunction_holds s c"
      unfolding document_matches_def by blast
    then obtain m where m: "m < length (conjunctions (docs ! d))" "conjunctions (docs ! d) ! m = c"
      by (metis in_set_conv_nth)
    have ic: "is_conj docs d m" and h: "conjunction_holds s (conj_at docs d m)"
      using d m c(2) by (simp_all add: is_conj_def conj_at_def)
    have "getConjunctionSize (conj_at docs d m) \<le> asize s"
      using assms ic h by (rule holds_size_le)
    moreover have "getConjunctionSize (conj_at docs d m) < length (indexs (create docs))"
      using wf_documents_levels(1)[OF assms(1)] ic by (rule size_lt_levels)
    ultimately have "getConjunctionSize (conj_at docs d m)
        \<le> min (length (indexs (create docs)) - 1) (asize s)" by simp
    moreover have "d \<in> level_docs docs s (getConjunctionSize (conj_at docs d m))"
      unfolding level_docs_def using ic h by blast
    ultimately show "d \<in> ?B" by blast
  next
    assume "d \<in> ?B"
    then obtain m where ic: "is_conj docs d m" and h: "conjunction_holds s (conj_at docs d m)"
      unfolding level_docs_def by blast
    then have "d < length docs" "conj_at docs d m \<in> set (conjunctions (docs ! d))"
      by (simp_all add: is_conj_def conj_at_def)
    then show "d \<in> ?A" using h unfolding document_matches_def by blast
  qed
qed

lemma retrieve_start:
  assumes "0 < L" "L \<le> 2 ^ 31" "a < 2 ^ 31"
  shows "min (to_int (word_of_nat L - 1)) (to_int (word_of_nat a)) = int (min (L - 1) a)"
proof -
  have "(word_of_nat L - 1 :: 64 word) = word_of_nat (L - 1)"
    using assms(1) by (simp add: of_nat_diff)
  moreover have "L - 1 < 2 ^ 31" using assms(1,2) by simp
  ultimately show ?thesis
    using assms(3) by (simp only: to_int_word_of_nat)
qed

lemma to_int_numerals: "to_int 1 = 1" "to_int 2 = 2" "to_int 0 = 0"
  by (simp_all add: to_int_def)

text \<open>
  C1, as stated for every built index and every assignment: \<^verbatim>\<open>retrieve\<close> adds exactly the
  ids of the documents that have a conjunction all of whose predicates hold. It fails for a
  conjunction with two positive predicates on the same key: the document with the one
  conjunction \<open>a \<in> {1, 2} \<and> a \<in> {2, 3}\<close> matches the assignment \<open>a = 2\<close>, whose \<^verbatim>\<open>size()\<close> is
  1, and the specified set is \<open>{0}\<close>; \<^verbatim>\<open>build\<close> files both predicates under size 2, and
  \<^verbatim>\<open>retrieve\<close> starts at size \<open>min(2, 1) = 1\<close>, finds no posting list for the sizes 1 and 0,
  and adds nothing.
\<close>

theorem retrieve_misses_repeated_key:
  "matching_ids
     [\<lparr>conjunctions = [\<lparr>expressions =
         [\<lparr>key = ''a'', exvalues = Ints [1, 2], positive = True\<rparr>,
          \<lparr>key = ''a'', exvalues = Ints [2, 3], positive = True\<rparr>]\<rparr>]\<rparr>]
     \<lparr>asize = 1, triggers = [(''a'', Ints [2])]\<rparr> = {0}
   \<and> result_ids (retrieve (create
     [\<lparr>conjunctions = [\<lparr>expressions =
         [\<lparr>key = ''a'', exvalues = Ints [1, 2], positive = True\<rparr>,
          \<lparr>key = ''a'', exvalues = Ints [2, 3], positive = True\<rparr>]\<rparr>]\<rparr>])
     \<lparr>asize = 1, triggers = [(''a'', Ints [2])]\<rparr> \<lparr>result_ids = {}\<rparr>) = {}"
proof -
  have m: "matching_ids
     [\<lparr>conjunctions = [\<lparr>expressions =
         [\<lparr>key = ''a'', exvalues = Ints [1, 2], positive = True\<rparr>,
          \<lparr>key = ''a'', exvalues = Ints [2, 3], positive = True\<rparr>]\<rparr>]\<rparr>]
     \<lparr>asize = 1, triggers = [(''a'', Ints [2])]\<rparr> = {0}"
    by (auto simp add: matching_ids_def document_matches_def conjunction_holds_def
          predicate_holds_def assigned_def vals_set_def)
  have c: "create
     [\<lparr>conjunctions = [\<lparr>expressions =
         [\<lparr>key = ''a'', exvalues = Ints [1, 2], positive = True\<rparr>,
          \<lparr>key = ''a'', exvalues = Ints [2, 3], positive = True\<rparr>]\<rparr>]\<rparr>]
     = \<lparr>indexs = [InvertedIndex_build InvertedIndex_new, InvertedIndex_build InvertedIndex_new,
          InvertedIndex_build
            (InvertedIndex_addEntry (Entry 0 0 True) ''a'' (Ints [2, 3])
              (InvertedIndex_addEntry (Entry 0 0 True) ''a'' (Ints [1, 2]) InvertedIndex_new))],
        zlist = []\<rparr>"
    by (simp add: create_def build_def getConjunctionSize_def resize_def Let_def)
  have n: "InvertedIndex_trigger PostingListGroup_new k vs InvertedIndex_new
      = PostingListGroup_new" for k :: string and vs
    by (simp add: InvertedIndex_trigger_def InvertedIndex_new_def Impl_trigger_def
          split: Values.splits)
  have e: "PostingListGroup_empty PostingListGroup_new"
    by (simp add: PostingListGroup_empty_def PostingListGroup_new_def)
  have "result_ids (retrieve \<lparr>indexs = [InvertedIndex_build InvertedIndex_new, InvertedIndex_build InvertedIndex_new,
          InvertedIndex_build
            (InvertedIndex_addEntry (Entry 0 0 True) ''a'' (Ints [2, 3])
              (InvertedIndex_addEntry (Entry 0 0 True) ''a'' (Ints [1, 2]) InvertedIndex_new))],
        zlist = []\<rparr>
     \<lparr>asize = 1, triggers = [(''a'', Ints [2])]\<rparr> \<lparr>result_ids = {}\<rparr>) = {}"
    by (simp add: retrieve_def to_int_numerals retrieve_size_def getPostingLists_def n e Let_def)
  with m show ?thesis unfolding c by (rule conjI)
qed

text \<open>
  C1, amended: \<^verbatim>\<open>retrieve\<close> adds exactly the ids of the documents that have a conjunction
  all of whose predicates hold, for the index \<^verbatim>\<open>create\<close> builds from a list of fewer than
  \<open>2^47\<close> documents with at most \<open>2^16\<close> conjunctions each, in which no conjunction has two
  positive predicates with the same key or \<open>2^31\<close> or more positive predicates and at least
  one conjunction has a predicate, and for an assignment whose \<^verbatim>\<open>trigger\<close> passes every key
  at most once and whose \<^verbatim>\<open>size()\<close> is at least the number of keys passed and less than
  \<open>2^31\<close>. The ids already in the result set stay.
\<close>

theorem retrieve_matching:
  fixes res :: ResultSet
  assumes "wf_documents docs" "wf_assignment s"
  shows "result_ids (retrieve (create docs) s res) = result_ids res \<union> matching_ids docs s"
proof -
  let ?L = "length (indexs (create docs))"
  let ?I = "min (?L - 1) (asize s)"
  have a: "asize s < 2 ^ 31" using assms(2) by (simp add: wf_assignment_def)
  have i0: "min (to_int (word_of_nat ?L - 1)) (to_int (word_of_nat (asize s))) = int ?I"
    using wf_documents_levels[OF assms(1)] a by (rule retrieve_start)
  have "retrieve (create docs) s res = retrieve_from (create docs) s ?I res"
    unfolding retrieve_def Let_def i0 by simp
  moreover have "?I < ?L" using wf_documents_levels(1)[OF assms(1)] by arith
  ultimately have "result_ids (retrieve (create docs) s res)
      = result_ids res \<union> word_of_nat ` (\<Union>n \<le> ?I. level_docs docs s n)"
    using retrieve_from_levels[OF assms] by simp
  then show ?thesis
    unfolding matching_ids_def matching_levels[OF assms] .
qed

text \<open>
  C1, amended, on the document with the one conjunction \<open>a \<in> {3} \<and> b \<notin> {y}\<close> and the
  assignment \<open>a = 3\<close>, \<open>b \<in> {x, z}\<close>: both conditions hold and \<^verbatim>\<open>retrieve\<close> returns \<open>{0}\<close>.
\<close>

theorem retrieve_matching_witness:
  "wf_documents [\<lparr>conjunctions = [\<lparr>expressions =
         [\<lparr>key = ''a'', exvalues = Ints [3], positive = True\<rparr>,
          \<lparr>key = ''b'', exvalues = Strings [''y''], positive = False\<rparr>]\<rparr>]\<rparr>]
   \<and> wf_assignment \<lparr>asize = 2, triggers = [(''a'', Ints [3]), (''b'', Strings [''x'', ''z''])]\<rparr>
   \<and> result_ids (retrieve (create
        [\<lparr>conjunctions = [\<lparr>expressions =
         [\<lparr>key = ''a'', exvalues = Ints [3], positive = True\<rparr>,
          \<lparr>key = ''b'', exvalues = Strings [''y''], positive = False\<rparr>]\<rparr>]\<rparr>])
        \<lparr>asize = 2, triggers = [(''a'', Ints [3]), (''b'', Strings [''x'', ''z''])]\<rparr>
        \<lparr>result_ids = {}\<rparr>) = {0}"
proof -
  let ?docs = "[\<lparr>conjunctions = [\<lparr>expressions =
         [\<lparr>key = ''a'', exvalues = Ints [3], positive = True\<rparr>,
          \<lparr>key = ''b'', exvalues = Strings [''y''], positive = False\<rparr>]\<rparr>]\<rparr>]"
  let ?s = "\<lparr>asize = 2, triggers = [(''a'', Ints [3]), (''b'', Strings [''x'', ''z''])]\<rparr>"
  have d: "wf_documents ?docs"
    by (simp add: wf_documents_def getConjunctionSize_def)
  have s: "wf_assignment ?s"
    by (simp add: wf_assignment_def)
  have m: "matching_ids ?docs ?s = {0}"
    by (auto simp add: matching_ids_def document_matches_def conjunction_holds_def
          predicate_holds_def assigned_def vals_set_def)
  show ?thesis
    using retrieve_matching[OF d s, of "\<lparr>result_ids = {}\<rparr>"] d s m by simp
qed


end
